theory Spec2Isabelle
  imports Complex_Main
begin

unbundle bit_operations_syntax

section \<open>EMRenderer: flow particles, iso-contours and the scientific colour map\<close>

text \<open>
  The definitions below embed the methods of class \<open>EMRenderer\<close> of
  \<^verbatim>\<open>src/js/ui/mode-transition.js\<close>. A JavaScript number is modelled by a \<open>real\<close>.
  In the flow-particle and colour methods arithmetic is exact. In the contour methods every
  arithmetic operation of the source is followed by \<open>toDouble\<close>, the rounding of the exact
  result to the nearest double, so that a value of the model is the double the source
  computes. There is no signed zero. The places where the source can meet \<open>Infinity\<close>,
  \<open>NaN\<close> or \<open>undefined\<close> are written out as separate values of the model.
\<close>

subsection \<open>Data\<close>

record point =
  pt_x :: real
  pt_y :: real

text \<open>A field line as the renderer receives it: \<open>line.points\<close> and \<open>line.fromPositive\<close>.\<close>

record fieldLine =
  points :: "point list"
  fromPositive :: bool

text \<open>
  The object literal pushed by \<open>initFlowParticles\<close>. Its fourth field is called
  \<open>fromPositive\<close> in the source; it is \<open>particleFromPositive\<close> here because the field
  line already has a field of that name.
\<close>

record flowParticle =
  line :: fieldLine
  position :: real
  speed :: real
  particleFromPositive :: bool

text \<open>
  The fields of the renderer that the embedded methods read or write. \<open>contourLevels\<close> is
  set to 12 by the constructor and \<open>flowParticles\<close> to the empty array.
\<close>

record renderer =
  width :: real
  height :: real
  contourLevels :: nat
  flowParticles :: "flowParticle list"

definition newRenderer :: "real \<Rightarrow> real \<Rightarrow> renderer" where
  "newRenderer w h = \<lparr>width = w, height = h, contourLevels = 12, flowParticles = []\<rparr>"

subsection \<open>Flow particles\<close>

text \<open>
  \<open>Math.random()\<close> is an explicit source \<open>rnd\<close>: \<open>rnd k\<close> is the value of the \<open>k\<close>-th
  call made while the method runs. Each particle draws twice, first its position and then
  its speed.
\<close>

definition particleCount :: "fieldLine \<Rightarrow> nat" where
  "particleCount fl = nat (min 8 \<lceil>real (length (points fl)) / 15\<rceil>)"

text \<open>The inner loop \<open>for (let i = 0; i < particleCount; i++)\<close>, started at draw \<open>k\<close>.\<close>

fun spawn :: "(nat \<Rightarrow> real) \<Rightarrow> nat \<Rightarrow> fieldLine \<Rightarrow> nat \<Rightarrow> flowParticle list" where
  "spawn rnd k fl 0 = []"
| "spawn rnd k fl (Suc n) =
     \<lparr>line = fl, position = rnd k, speed = 0.3 + rnd (Suc k) * 0.4,
      particleFromPositive = fromPositive fl\<rparr> # spawn rnd (k + 2) fl n"

text \<open>The outer loop \<open>for (const line of fieldLines)\<close> with its \<open>continue\<close>.\<close>

fun seedLines :: "(nat \<Rightarrow> real) \<Rightarrow> nat \<Rightarrow> fieldLine list \<Rightarrow> flowParticle list" where
  "seedLines rnd k [] = []"
| "seedLines rnd k (fl # fls) =
     (if length (points fl) < 2 then seedLines rnd k fls
      else spawn rnd k fl (particleCount fl)
           @ seedLines rnd (k + 2 * particleCount fl) fls)"

definition initFlowParticles :: "(nat \<Rightarrow> real) \<Rightarrow> renderer \<Rightarrow> fieldLine list \<Rightarrow> renderer" where
  "initFlowParticles rnd r fieldLines = r\<lparr>flowParticles := seedLines rnd 0 fieldLines\<rparr>"

text \<open>The body of the loop of \<open>updateFlowParticles\<close>, on one particle.\<close>

definition updateParticle :: "real \<Rightarrow> flowParticle \<Rightarrow> flowParticle" where
  "updateParticle dt p =
     (let p1 = p\<lparr>position := position p + speed p * dt\<rparr>
      in if position p1 > 1 then p1\<lparr>position := 0\<rparr> else p1)"

definition updateFlowParticles :: "real \<Rightarrow> renderer \<Rightarrow> renderer" where
  "updateFlowParticles dt r = r\<lparr>flowParticles := map (updateParticle dt) (flowParticles r)\<rparr>"

subsection \<open>Drawing the flow particles\<close>

text \<open>
  \<open>points[idx]\<close> is \<open>undefined\<close> when \<open>idx\<close> is not an index of the array, and reading
  \<open>.x\<close> of \<open>undefined\<close> throws a \<open>TypeError\<close>.
\<close>

datatype jsError = TypeError

definition pointAt :: "point list \<Rightarrow> int \<Rightarrow> jsError + point" where
  "pointAt pts i =
     (if 0 \<le> i \<and> i < int (length pts) then Inr (pts ! nat i) else Inl TypeError)"

text \<open>\<open>v % 1\<close>: the remainder of JavaScript has the sign of the dividend.\<close>

definition jsMod1 :: "real \<Rightarrow> real" where
  "jsMod1 v = v - of_int (if 0 \<le> v then \<lfloor>v\<rfloor> else \<lceil>v\<rceil>)"

definition phosphorGreen :: string where
  "phosphorGreen = ''#4CAF50''"

definition cobaltBlue :: string where
  "cobaltBlue = ''#1565C0''"

definition lineColor :: "fieldLine \<Rightarrow> string" where
  "lineColor fl = (if fromPositive fl then phosphorGreen else cobaltBlue)"

text \<open>
  One dash of the canvas: its centre \<open>(x, y)\<close>, the two arguments of \<open>Math.atan2\<close> that
  give its angle, and its stroke colour. The dash runs from the centre minus to the centre
  plus \<open>dashLength / 2 = 3\<close> along that angle.
\<close>

record dash =
  dash_x :: real
  dash_y :: real
  dash_dy :: real
  dash_dx :: real
  dash_color :: string

text \<open>The faint path lines of the first loop: one polyline per line of at least 2 points.\<close>

definition pathLines :: "fieldLine list \<Rightarrow> (point list \<times> string) list" where
  "pathLines fieldLines =
     map (\<lambda>fl. (points fl, lineColor fl @ ''15''))
       (filter (\<lambda>fl. \<not> length (points fl) < 2) fieldLines)"

definition particleDash :: "flowParticle \<Rightarrow> jsError + dash" where
  "particleDash p =
     (let pts = points (line p);
          idx = \<lfloor>position p * (real (length pts) - 1)\<rfloor>;
          nextIdx = min (idx + 1) (int (length pts) - 1);
          t = jsMod1 (position p * (real (length pts) - 1))
      in case pointAt pts idx of
           Inl e \<Rightarrow> Inl e
         | Inr a \<Rightarrow>
            (case pointAt pts nextIdx of
               Inl e \<Rightarrow> Inl e
             | Inr b \<Rightarrow>
                Inr \<lparr>dash_x = pt_x a + (pt_x b - pt_x a) * t,
                     dash_y = pt_y a + (pt_y b - pt_y a) * t,
                     dash_dy = pt_y b - pt_y a,
                     dash_dx = pt_x b - pt_x a,
                     dash_color = lineColor (line p)\<rparr>))"

text \<open>The last loop of \<open>drawFlowParticles\<close>; an exception ends the method.\<close>

fun drawDashes :: "flowParticle list \<Rightarrow> jsError + dash list" where
  "drawDashes [] = Inr []"
| "drawDashes (p # ps) =
     (if length (points (line p)) < 2 then drawDashes ps
      else case particleDash p of
             Inl e \<Rightarrow> Inl e
           | Inr d \<Rightarrow> (case drawDashes ps of Inl e \<Rightarrow> Inl e | Inr ds \<Rightarrow> Inr (d # ds)))"

text \<open>
  \<open>drawFlowParticles\<close> returns the renderer it leaves behind, the path lines and the
  dashes it drew (or the exception of the dash loop).
\<close>

definition drawFlowParticles ::
  "(nat \<Rightarrow> real) \<Rightarrow> renderer \<Rightarrow> fieldLine list
    \<Rightarrow> renderer \<times> (point list \<times> string) list \<times> (jsError + dash list)" where
  "drawFlowParticles rnd r fieldLines =
     (let r1 = (if length (flowParticles r) = 0 \<and> length fieldLines > 0
                then initFlowParticles rnd r fieldLines else r)
      in (r1, pathLines fieldLines, drawDashes (flowParticles r1)))"

definition drawFieldLines ::
  "(nat \<Rightarrow> real) \<Rightarrow> renderer \<Rightarrow> fieldLine list
    \<Rightarrow> renderer \<times> (point list \<times> string) list \<times> (jsError + dash list)" where
  "drawFieldLines rnd r fieldLines = drawFlowParticles rnd r fieldLines"

text \<open>
  The number of particles the specification gives one line: \<open>min(8, ceil(pointCount/15))\<close>
  for a line of at least 2 points, none for a shorter one.
\<close>

definition specCount :: "fieldLine \<Rightarrow> nat" where
  "specCount fl =
     (if length (points fl) < 2 then 0
      else nat (min 8 \<lceil>real (length (points fl)) / 15\<rceil>))"

definition lineOfLength :: "nat \<Rightarrow> fieldLine" where
  "lineOfLength n =
     \<lparr>points = map (\<lambda>i. \<lparr>pt_x = real i, pt_y = 0\<rparr>) [0..<n], fromPositive = True\<rparr>"

text \<open>Two concrete inputs: a pool seeded while \<open>Math.random()\<close> returns 0.5, and the
  particle of the specification's example.\<close>

definition seededHalf :: renderer where
  "seededHalf = initFlowParticles (\<lambda>k. 1 / 2) (newRenderer 800 600) [lineOfLength 2]"

definition exampleParticle :: flowParticle where
  "exampleParticle =
     \<lparr>line = lineOfLength 2, position = 0.95, speed = 0.5, particleFromPositive = True\<rparr>"

subsection \<open>The scientific colour map\<close>

text \<open>The string \<open>rgb(r,g,b)\<close> that \<open>getScientificColor\<close> returns, by its three numbers.\<close>

datatype color = RGB int int int

text \<open>\<open>Math.round\<close> rounds to the nearest integer, a half upwards.\<close>

definition jsRound :: "real \<Rightarrow> int" where
  "jsRound v = \<lfloor>v + 1 / 2\<rfloor>"

definition getScientificColor :: "real \<Rightarrow> color" where
  "getScientificColor t =
     (if t < 0.5 then
        (let s = t * 2;
             r = jsRound (10 + s * 20);
             g = jsRound (10 + s * 20);
             b = jsRound (60 + (1 - s) * 132)
         in RGB r g b)
      else
        (let s = (t - 0.5) * 2;
             r = jsRound (30 - s * 20);
             g = jsRound (30 + s * 145);
             b = jsRound (30 - s * 10)
         in RGB r g b))"

subsection \<open>Doubles\<close>

text \<open>
  \<open>roundEven\<close> rounds a real to the nearest integer, a tie to the even one.
\<close>

definition roundEven :: "real \<Rightarrow> int" where
  "roundEven v =
     (let f = \<lfloor>v\<rfloor>; d = v - of_int f
      in if d < 1 / 2 then f
         else if 1 / 2 < d then f + 1
         else if even f then f else f + 1)"

text \<open>
  The doubles around \<open>v\<close> are the multiples of \<open>2 powi e\<close>, where \<open>e = quantumExp v\<close> is the
  largest exponent with \<open>2 powi (e + 52) \<le> \<bar>v\<bar>\<close>, and not less than \<open>-1074\<close>, the exponent
  of the smallest positive double. The search runs down from 971, the exponent of the
  last binade of the doubles.
\<close>

fun searchExp :: "nat \<Rightarrow> real \<Rightarrow> int" where
  "searchExp 0 a = - 1074"
| "searchExp (Suc k) a =
     (if 2 powi (int k - 1073 + 52) \<le> a then int k - 1073 else searchExp k a)"

definition quantumExp :: "real \<Rightarrow> int" where
  "quantumExp v = searchExp 2045 \<bar>v\<bar>"

text \<open>
  \<open>toDouble v\<close> is the double nearest to \<open>v\<close>, a tie going to the even significand: the
  rounding of every arithmetic operation on doubles. A real beyond the largest double is
  rounded in the last binade and stays finite: \<open>Infinity\<close> is not modelled by this function.
\<close>

definition toDouble :: "real \<Rightarrow> real" where
  "toDouble v = of_int (roundEven (v / 2 powi quantumExp v)) * 2 powi quantumExp v"

definition isDouble :: "real \<Rightarrow> bool" where
  "isDouble v \<longleftrightarrow> toDouble v = v"

subsection \<open>Iso-contours\<close>

text \<open>
  What \<open>chargeSystem.potentialAt(x, y)\<close> returns: a finite number, or a value for which
  \<open>isFinite\<close> is false.
\<close>

datatype jsnumber = Num real | NotFinite

text \<open>\<open>if (!isFinite(V)) V = 0; V = Math.max(-1e6, Math.min(1e6, V))\<close>\<close>

definition clampSample :: "jsnumber \<Rightarrow> real" where
  "clampSample V =
     (let V1 = (case V of NotFinite \<Rightarrow> 0 | Num v \<Rightarrow> v)
      in max (- 1000000) (min 1000000 V1))"

text \<open>
  \<open>cols\<close> and \<open>rows\<close> are used as loop bounds only. A bound of \<open>NaN\<close>, of \<open>-Infinity\<close> or
  below 1 gives no iteration, as the bound 0 does; the bound \<open>Infinity\<close>, which
  \<open>Math.ceil(this.height / resolution)\<close> is for a resolution of 0 and a positive height,
  is the case in which the sampling loop never ends (see \<open>drawPotentialContours\<close>).
  A quotient that overflows for a resolution that is not 0 (an extent of more than
  \<open>2 powi 1024\<close> resolutions) is a finite count here.
\<close>

definition colCount :: "renderer \<Rightarrow> real \<Rightarrow> nat" where
  "colCount r resolution = nat \<lceil>toDouble (width r / resolution)\<rceil>"

definition rowCount :: "renderer \<Rightarrow> real \<Rightarrow> nat" where
  "rowCount r resolution = nat \<lceil>toDouble (height r / resolution)\<rceil>"

definition potentialGrid ::
  "(real \<Rightarrow> real \<Rightarrow> jsnumber) \<Rightarrow> real \<Rightarrow> nat \<Rightarrow> nat \<Rightarrow> real list list" where
  "potentialGrid potentialAt resolution rows cols =
     map (\<lambda>j. map (\<lambda>i. clampSample (potentialAt (toDouble (real i * resolution))
                                               (toDouble (real j * resolution))))
                [0..<cols])
       [0..<rows]"

text \<open>
  The running minimum and maximum start at \<open>Infinity\<close> and \<open>-Infinity\<close>, which is \<open>None\<close>
  here; every sample is finite after clamping, so the first one replaces both.
\<close>

definition lowerOf :: "real option \<Rightarrow> real \<Rightarrow> real option" where
  "lowerOf minV V = (case minV of None \<Rightarrow> Some V | Some m \<Rightarrow> if V < m then Some V else Some m)"

definition upperOf :: "real option \<Rightarrow> real \<Rightarrow> real option" where
  "upperOf maxV V = (case maxV of None \<Rightarrow> Some V | Some m \<Rightarrow> if V > m then Some V else Some m)"

definition scanMin :: "real list list \<Rightarrow> real option" where
  "scanMin grid = foldl lowerOf None (concat grid)"

definition scanMax :: "real list list \<Rightarrow> real option" where
  "scanMax grid = foldl upperOf None (concat grid)"

text \<open>
  The loop that fills \<open>levels\<close>, for \<open>this.contourLevels = n\<close>:
  \<open>minV + (range * i) / this.contourLevels\<close>, one rounding for each of the subtraction,
  the product, the quotient and the sum.
\<close>

definition levelValues :: "real \<Rightarrow> real \<Rightarrow> nat \<Rightarrow> real list" where
  "levelValues minV maxV n =
     (let valueRange = toDouble (maxV - minV)
      in map (\<lambda>i. toDouble (minV + toDouble (toDouble (valueRange * real i) / real n)))
           [1..<n])"

definition marchingIndex :: "real \<Rightarrow> real \<Rightarrow> real \<Rightarrow> real \<Rightarrow> real \<Rightarrow> nat" where
  "marchingIndex level v00 v10 v01 v11 =
     (let idx0 = 0;
          idx1 = (if v00 \<ge> level then idx0 OR 1 else idx0);
          idx2 = (if v10 \<ge> level then idx1 OR 2 else idx1);
          idx3 = (if v11 \<ge> level then idx2 OR 4 else idx2);
          idx4 = (if v01 \<ge> level then idx3 OR 8 else idx3)
      in idx4)"

text \<open>\<open>a + (b - a) * t\<close>\<close>

definition lerp :: "real \<Rightarrow> real \<Rightarrow> real \<Rightarrow> real" where
  "lerp a b t = toDouble (a + toDouble (toDouble (b - a) * t))"

text \<open>\<open>d || 1\<close>: 0 is the only falsy value a difference of two finite numbers can have.\<close>

definition orOne :: "real \<Rightarrow> real" where
  "orOne d = (if d = 0 then 1 else d)"

text \<open>
  One interpolation position: \<open>lerp(0, size, (level - vA) / (vB - vA || 1))\<close>. Where the
  quotient of the source overflows to \<open>Infinity\<close> the position of the model is a finite
  real beyond the doubles; this needs a denominator far smaller than the numerator, on an
  edge that the level does not cross and whose position is not drawn.
\<close>

definition edgePosition :: "real \<Rightarrow> real \<Rightarrow> real \<Rightarrow> real \<Rightarrow> real" where
  "edgePosition cellSize level vA vB =
     lerp 0 cellSize (toDouble (toDouble (level - vA) / orOne (toDouble (vB - vA))))"

text \<open>A segment \<open>[x1, y1, x2, y2]\<close>: one \<open>moveTo(x1, y1)\<close> followed by \<open>lineTo(x2, y2)\<close>.\<close>

type_synonym segment = "real \<times> real \<times> real \<times> real"

text \<open>
  \<open>drawContourSegment\<close> returns the segments it adds to the current path. The object
  \<open>segments\<close> has the keys 1 to 14; for any other \<open>idx\<close> the lookup is \<open>undefined\<close> and
  nothing is drawn. Every sum of the table, such as \<open>x + top\<close>, is rounded.
\<close>

definition drawContourSegment ::
  "real \<Rightarrow> real \<Rightarrow> real \<Rightarrow> nat \<Rightarrow> real \<Rightarrow> real \<Rightarrow> real \<Rightarrow> real \<Rightarrow> real \<Rightarrow> segment list" where
  "drawContourSegment x y cellSize idx level v00 v10 v01 v11 =
     (let top = edgePosition cellSize level v00 v10;
          bottom = edgePosition cellSize level v01 v11;
          left = edgePosition cellSize level v00 v01;
          right = edgePosition cellSize level v10 v11
      in if idx = 1 then [(x, toDouble (y + left), toDouble (x + top), y)]
         else if idx = 2 then [(toDouble (x + top), y, toDouble (x + cellSize), toDouble (y + right))]
         else if idx = 3 then [(x, toDouble (y + left), toDouble (x + cellSize), toDouble (y + right))]
         else if idx = 4 then [(toDouble (x + cellSize), toDouble (y + right),
                                toDouble (x + bottom), toDouble (y + cellSize))]
         else if idx = 5 then [(x, toDouble (y + left), toDouble (x + top), y),
                               (toDouble (x + cellSize), toDouble (y + right),
                                toDouble (x + bottom), toDouble (y + cellSize))]
         else if idx = 6 then [(toDouble (x + top), y, toDouble (x + bottom), toDouble (y + cellSize))]
         else if idx = 7 then [(x, toDouble (y + left), toDouble (x + bottom), toDouble (y + cellSize))]
         else if idx = 8 then [(toDouble (x + bottom), toDouble (y + cellSize), x, toDouble (y + left))]
         else if idx = 9 then [(toDouble (x + bottom), toDouble (y + cellSize), toDouble (x + top), y)]
         else if idx = 10 then [(toDouble (x + top), y, toDouble (x + cellSize), toDouble (y + right)),
                                (toDouble (x + bottom), toDouble (y + cellSize), x, toDouble (y + left))]
         else if idx = 11 then [(toDouble (x + bottom), toDouble (y + cellSize),
                                 toDouble (x + cellSize), toDouble (y + right))]
         else if idx = 12 then [(toDouble (x + cellSize), toDouble (y + right), x, toDouble (y + left))]
         else if idx = 13 then [(toDouble (x + cellSize), toDouble (y + right), toDouble (x + top), y)]
         else if idx = 14 then [(toDouble (x + top), y, x, toDouble (y + left))]
         else [])"

text \<open>
  The body of the two cell loops for the cell of row \<open>j\<close> and column \<open>i\<close>. The loops keep
  \<open>j + 1 < rows\<close> and \<open>i + 1 < cols\<close>, so the four reads are inside the grid.
\<close>

definition cellSegments :: "real list list \<Rightarrow> real \<Rightarrow> real \<Rightarrow> nat \<Rightarrow> nat \<Rightarrow> segment list" where
  "cellSegments grid resolution level j i =
     (let x = toDouble (real i * resolution);
          y = toDouble (real j * resolution);
          v00 = grid ! j ! i;
          v10 = grid ! j ! (i + 1);
          v01 = grid ! (j + 1) ! i;
          v11 = grid ! (j + 1) ! (i + 1);
          idx = marchingIndex level v00 v10 v01 v11
      in drawContourSegment x y resolution idx level v00 v10 v01 v11)"

text \<open>The path of one level: rows outside, columns inside.\<close>

definition marchLevel :: "real list list \<Rightarrow> real \<Rightarrow> nat \<Rightarrow> nat \<Rightarrow> real \<Rightarrow> segment list" where
  "marchLevel grid resolution rows cols level =
     concat (map (\<lambda>j. concat (map (\<lambda>i. cellSegments grid resolution level j i) [0..<cols - 1]))
               [0..<rows - 1])"

text \<open>
  A level of the array \<open>levels\<close>. Without any sample \<open>minV\<close> is still \<open>Infinity\<close> and
  \<open>range\<close> is \<open>-Infinity\<close>, and every level is \<open>Infinity + -Infinity = NaN\<close>.
\<close>

datatype jslevel = Level real | LevelNaN

text \<open>
  \<open>drawPotentialContours\<close> returns, for every level in order, the level and the segments
  of the path stroked for it (the stroke colour is left out). The result of the early
  \<open>return\<close> is the empty list. \<open>None\<close> is the run that never returns: a resolution of 0
  with a positive height makes \<open>rows\<close> infinite.
\<close>

definition drawPotentialContours ::
  "renderer \<Rightarrow> (real \<Rightarrow> real \<Rightarrow> jsnumber) \<Rightarrow> real \<Rightarrow> (jslevel \<times> segment list) list option" where
  "drawPotentialContours r potentialAt resolution =
     (if resolution = 0 \<and> height r > 0 then None
      else
        (let cols = colCount r resolution;
             rows = rowCount r resolution;
             grid = potentialGrid potentialAt resolution rows cols
         in case (scanMin grid, scanMax grid) of
              (Some minV, Some maxV) \<Rightarrow>
                if maxV = minV then Some []
                else Some (map (\<lambda>level. (Level level, marchLevel grid resolution rows cols level))
                             (levelValues minV maxV (contourLevels r)))
            | _ \<Rightarrow> Some (map (\<lambda>i. (LevelNaN, [])) [1..<contourLevels r])))"

text \<open>The legacy entry point.\<close>

definition drawPotentialField ::
  "renderer \<Rightarrow> (real \<Rightarrow> real \<Rightarrow> jsnumber) \<Rightarrow> real \<Rightarrow> (jslevel \<times> segment list) list option" where
  "drawPotentialField r potentialAt resolution = drawPotentialContours r potentialAt resolution"

text \<open>The samples of the grid that \<open>drawPotentialContours\<close> builds, row after row.\<close>

definition gridSamples :: "renderer \<Rightarrow> (real \<Rightarrow> real \<Rightarrow> jsnumber) \<Rightarrow> real \<Rightarrow> real list" where
  "gridSamples r potentialAt resolution =
     concat (potentialGrid potentialAt resolution (rowCount r resolution) (colCount r resolution))"

text \<open>
  The lines to which the specification binds the particles of a pool: every line
  \<open>specCount\<close> times, in the order of the list.
\<close>

definition seededLines :: "fieldLine list \<Rightarrow> fieldLine list" where
  "seededLines fieldLines = concat (map (\<lambda>fl. replicate (specCount fl) fl) fieldLines)"

text \<open>
  Concrete fields: one with a unit sample at the origin and a peak of 12 at \<open>(16, 0)\<close>, a
  flat one, and one whose two samples are the adjacent doubles 1 and \<open>1 + 2 powi (- 52)\<close>.
\<close>

definition peakField :: "real \<Rightarrow> real \<Rightarrow> jsnumber" where
  "peakField x y = Num (if x = 0 \<and> y = 0 then 1 else if x = 16 \<and> y = 0 then 12 else 0)"

definition flatField :: "real \<Rightarrow> real \<Rightarrow> jsnumber" where
  "flatField x y = Num 5"

definition adjacentField :: "real \<Rightarrow> real \<Rightarrow> jsnumber" where
  "adjacentField x y = Num (if x = 0 then 1 else 1 + 2 powi (- 52))"

subsection \<open>Seeding\<close>

lemma length_spawn: "length (spawn rnd k fl n) = n"
  by (induction n arbitrary: k) simp_all

lemma ceiling_div_15: "\<lceil>real n / 15\<rceil> = int ((n + 14) div 15)"
proof -
  have "real n / 15 = real_of_int (int n) / real_of_int 15" by simp
  then have "\<lceil>real n / 15\<rceil> = - ((- int n) div 15)"
    by (simp only: ceiling_divide_eq_div)
  also have "\<dots> = int ((n + 14) div 15)" by (simp add: zdiv_int)
  finally show ?thesis .
qed

lemma length_seedLines: "length (seedLines rnd k fls) = sum_list (map specCount fls)"
  by (induction fls arbitrary: k) (simp_all add: length_spawn particleCount_def specCount_def)

lemma spawn_enumerate:
  "spawn rnd (2 * m) fl c =
     map (\<lambda>(k, l). \<lparr>line = l, position = rnd (2 * k), speed = 0.3 + rnd (2 * k + 1) * 0.4,
                     particleFromPositive = fromPositive l\<rparr>)
       (enumerate m (replicate c fl))"
proof (induction c arbitrary: m)
  case 0
  show ?case by simp
next
  case (Suc c)
  have "spawn rnd (2 * m + 2) fl c = spawn rnd (2 * Suc m) fl c" by simp
  then have "spawn rnd (2 * m) fl (Suc c) =
      \<lparr>line = fl, position = rnd (2 * m), speed = 0.3 + rnd (2 * m + 1) * 0.4,
       particleFromPositive = fromPositive fl\<rparr> # spawn rnd (2 * Suc m) fl c"
    by simp
  then show ?case by (simp only: Suc) simp
qed

lemma specCount_particleCount:
  "\<not> length (points fl) < 2 \<Longrightarrow> specCount fl = particleCount fl"
  by (simp add: specCount_def particleCount_def)

lemma seedLines_enumerate:
  "seedLines rnd (2 * m) fls =
     map (\<lambda>(k, l). \<lparr>line = l, position = rnd (2 * k), speed = 0.3 + rnd (2 * k + 1) * 0.4,
                     particleFromPositive = fromPositive l\<rparr>)
       (enumerate m (seededLines fls))"
proof (induction fls arbitrary: m)
  case Nil
  show ?case by (simp add: seededLines_def)
next
  case (Cons fl fls)
  show ?case
  proof (cases "length (points fl) < 2")
    case True
    then have "specCount fl = 0" by (simp add: specCount_def)
    then have "seededLines (fl # fls) = seededLines fls" by (simp add: seededLines_def)
    moreover from True have "seedLines rnd (2 * m) (fl # fls) = seedLines rnd (2 * m) fls"
      by simp
    ultimately show ?thesis by (simp only: Cons)
  next
    case False
    let ?c = "particleCount fl"
    have split: "seededLines (fl # fls) = replicate ?c fl @ seededLines fls"
      by (simp add: seededLines_def specCount_particleCount [OF False])
    have "2 * m + 2 * ?c = 2 * (m + ?c)" by simp
    with False have "seedLines rnd (2 * m) (fl # fls) =
        spawn rnd (2 * m) fl ?c @ seedLines rnd (2 * (m + ?c)) fls"
      by simp
    then show ?thesis
      by (simp only: Cons split spawn_enumerate enumerate_append_eq map_append length_replicate)
  qed
qed

lemma map_snd_enumerate: "map snd (enumerate m xs) = xs"
  by (simp add: enumerate_eq_zip)

lemma length_seededLines: "length (seededLines fls) = sum_list (map specCount fls)"
  by (induction fls) (simp_all add: seededLines_def)

text \<open>
  C6. Seeding replaces the pool by one particle for every entry of the list that repeats
  each line \<open>min(8, ceil(n/15))\<close> times when the line has \<open>n \<ge> 2\<close> points and not at all
  otherwise, in the order of the lines: the particle is bound to that line, carries its
  polarity, and takes the next two random draws as its position and, scaled into
  \<open>[0.3, 0.7)\<close>, its speed. So the lines of the pool are every line repeated by its count,
  the size of the pool is the sum of the counts, an empty list of lines gives an empty pool,
  and one line of 20 points gives exactly 2 particles.
\<close>

theorem initFlowParticles_count:
  "flowParticles (initFlowParticles rnd r fieldLines) =
     map (\<lambda>(k, l). \<lparr>line = l, position = rnd (2 * k), speed = 0.3 + rnd (2 * k + 1) * 0.4,
                     particleFromPositive = fromPositive l\<rparr>)
       (enumerate 0 (concat (map (\<lambda>fl. replicate (specCount fl) fl) fieldLines)))
   \<and> map line (flowParticles (initFlowParticles rnd r fieldLines)) =
       concat (map (\<lambda>fl. replicate (specCount fl) fl) fieldLines)
   \<and> length (flowParticles (initFlowParticles rnd r fieldLines)) = sum_list (map specCount fieldLines)
   \<and> flowParticles (initFlowParticles rnd r []) = []
   \<and> length (flowParticles (initFlowParticles rnd r [lineOfLength 20])) = 2"
proof -
  have a: "flowParticles (initFlowParticles rnd r fieldLines) =
     map (\<lambda>(k, l). \<lparr>line = l, position = rnd (2 * k), speed = 0.3 + rnd (2 * k + 1) * 0.4,
                     particleFromPositive = fromPositive l\<rparr>)
       (enumerate 0 (seededLines fieldLines))" for fieldLines
    using seedLines_enumerate [of rnd 0 fieldLines] by (simp add: initFlowParticles_def)
  have b: "map line (flowParticles (initFlowParticles rnd r fieldLines)) = seededLines fieldLines"
    for fieldLines
  proof -
    have "map line (flowParticles (initFlowParticles rnd r fieldLines))
        = map snd (enumerate 0 (seededLines fieldLines))"
      unfolding a by (simp add: case_prod_beta comp_def)
    then show ?thesis by (simp only: map_snd_enumerate)
  qed
  have c: "length (flowParticles (initFlowParticles rnd r fieldLines)) = sum_list (map specCount fieldLines)"
    for fieldLines
    unfolding a by (simp add: length_seededLines)
  have d: "flowParticles (initFlowParticles rnd r []) = []"
    by (simp add: initFlowParticles_def)
  have e: "length (flowParticles (initFlowParticles rnd r [lineOfLength 20])) = 2"
    unfolding c by (simp add: specCount_def lineOfLength_def ceiling_div_15)
  from a b c d e show ?thesis unfolding seededLines_def by (intro conjI)
qed

subsection \<open>Advancing\<close>

lemma position_updateParticle:
  "position (updateParticle dt p) =
     (if position p + speed p * dt > 1 then 0 else position p + speed p * dt)"
  by (simp add: updateParticle_def Let_def)

lemma speed_updateParticle: "speed (updateParticle dt p) = speed p"
  by (simp add: updateParticle_def Let_def)

lemma line_updateParticle: "line (updateParticle dt p) = line p"
  by (simp add: updateParticle_def Let_def)

lemma spawn_ranges:
  assumes "\<And>k. 0 \<le> rnd k \<and> rnd k < 1" and "p \<in> set (spawn rnd k fl n)"
  shows "0 \<le> position p \<and> position p < 1 \<and> 3 / 10 \<le> speed p \<and> speed p < 7 / 10 \<and> line p = fl"
  using assms(2)
proof (induction n arbitrary: k)
  case 0
  then show ?case by simp
next
  case (Suc n)
  from assms(1) [of k] assms(1) [of "Suc k"] Suc show ?case by auto
qed

lemma seedLines_ranges:
  assumes "\<And>k. 0 \<le> rnd k \<and> rnd k < 1" and "p \<in> set (seedLines rnd k fls)"
  shows "0 \<le> position p \<and> position p < 1 \<and> 3 / 10 \<le> speed p \<and> speed p < 7 / 10
         \<and> 2 \<le> length (points (line p))"
  using assms(2)
proof (induction fls arbitrary: k)
  case Nil
  then show ?case by simp
next
  case (Cons fl fls)
  show ?case
  proof (cases "length (points fl) < 2")
    case True
    with Cons show ?thesis by simp
  next
    case False
    with Cons.prems have "p \<in> set (spawn rnd k fl (particleCount fl))
        \<or> p \<in> set (seedLines rnd (k + 2 * particleCount fl) fls)"
      by simp
    then show ?thesis
    proof
      assume "p \<in> set (spawn rnd k fl (particleCount fl))"
      from spawn_ranges [OF assms(1) this] False show ?thesis by simp
    next
      assume "p \<in> set (seedLines rnd (k + 2 * particleCount fl) fls)"
      then show ?thesis by (rule Cons.IH)
    qed
  qed
qed

text \<open>
  C7, as amended. Seeding places every position in \<open>[0,1)\<close> (and every speed in
  \<open>[0.3, 0.7)\<close>) when \<open>Math.random()\<close> returns values of \<open>[0,1)\<close>. For every \<open>dt \<ge> 0\<close>,
  \<open>updateFlowParticles\<close> adds \<open>speed * dt\<close> to each position and resets it to 0 when the
  sum is greater than 1; positions that were in the closed interval \<open>[0,1]\<close> are in \<open>[0,1]\<close>
  again. A sum of exactly 1 is kept, so the interval is closed at 1.
\<close>

theorem flowParticles_position_range:
  assumes "\<forall>k. 0 \<le> rnd k \<and> rnd k < 1"
    and "\<forall>p \<in> set (flowParticles r). 0 \<le> position p \<and> position p \<le> 1 \<and> 0 \<le> speed p"
    and "0 \<le> dt"
  shows "(\<forall>p \<in> set (flowParticles (initFlowParticles rnd r0 fieldLines)).
            0 \<le> position p \<and> position p < 1 \<and> 3 / 10 \<le> speed p \<and> speed p < 7 / 10)
       \<and> map position (flowParticles (updateFlowParticles dt r)) =
           map (\<lambda>p. if position p + speed p * dt > 1 then 0 else position p + speed p * dt)
             (flowParticles r)
       \<and> (\<forall>p \<in> set (flowParticles (updateFlowParticles dt r)).
            0 \<le> position p \<and> position p \<le> 1 \<and> 0 \<le> speed p)"
proof (intro conjI ballI)
  fix p assume "p \<in> set (flowParticles (initFlowParticles rnd r0 fieldLines))"
  then have p: "p \<in> set (seedLines rnd 0 fieldLines)" by (simp add: initFlowParticles_def)
  from assms(1) have rnd: "\<And>k. 0 \<le> rnd k \<and> rnd k < 1" by simp
  from seedLines_ranges [OF rnd p]
  show "0 \<le> position p" "position p < 1" "3 / 10 \<le> speed p" "speed p < 7 / 10" by simp_all
next
  show "map position (flowParticles (updateFlowParticles dt r)) =
           map (\<lambda>p. if position p + speed p * dt > 1 then 0 else position p + speed p * dt)
             (flowParticles r)"
    by (simp add: updateFlowParticles_def position_updateParticle)
next
  fix p assume "p \<in> set (flowParticles (updateFlowParticles dt r))"
  then obtain q where q: "q \<in> set (flowParticles r)" and p: "p = updateParticle dt q"
    by (auto simp: updateFlowParticles_def)
  from assms(2) q have b: "0 \<le> position q" "position q \<le> 1" "0 \<le> speed q" by simp_all
  from b(3) assms(3) have "0 \<le> speed q * dt" by simp
  with b(1) have "0 \<le> position q + speed q * dt" by simp
  then show "0 \<le> position p" "position p \<le> 1" "0 \<le> speed p"
    using b(3) by (simp_all add: p position_updateParticle speed_updateParticle)
qed

lemma particleCount_two: "particleCount (lineOfLength 2) = 1"
  by (simp add: particleCount_def lineOfLength_def)

lemma flowParticles_seededHalf:
  "flowParticles seededHalf =
     [\<lparr>line = lineOfLength 2, position = 1 / 2, speed = 1 / 2, particleFromPositive = True\<rparr>]"
  by (simp add: seededHalf_def initFlowParticles_def newRenderer_def particleCount_two)
     (simp add: lineOfLength_def)

theorem flowParticles_position_range_witness:
  "list_all (\<lambda>p. 0 \<le> position p \<and> position p \<le> 1 \<and> 0 \<le> speed p) (flowParticles seededHalf)
   \<and> (0::real) \<le> 1
   \<and> list_all (\<lambda>p. 0 \<le> position p \<and> position p \<le> 1 \<and> 0 \<le> speed p)
        (flowParticles (updateFlowParticles 1 seededHalf))
   \<and> map position (flowParticles (updateFlowParticles 1 seededHalf)) = [1]"
proof -
  have h1: "\<forall>k::nat. (0::real) \<le> (\<lambda>k. 1 / 2) k \<and> (\<lambda>k. 1 / 2) k < (1::real)" by simp
  have h2: "\<forall>p \<in> set (flowParticles seededHalf). 0 \<le> position p \<and> position p \<le> 1 \<and> 0 \<le> speed p"
    by (simp add: flowParticles_seededHalf)
  have h3: "(0::real) \<le> 1" by simp
  from flowParticles_position_range [OF h1 h2 h3, of "newRenderer 800 600" "[lineOfLength 2]"]
  show ?thesis
    by (simp add: list_all_iff flowParticles_seededHalf h2 updateFlowParticles_def
        position_updateParticle)
qed

text \<open>
  C7, as stated, fails: a particle seeded at position 0.5 with speed 0.5 and advanced by
  \<open>dt = 1\<close> reaches exactly 1, which the test \<open>position > 1\<close> keeps, and 1 is outside
  \<open>[0,1)\<close>.
\<close>

theorem flowParticles_position_reaches_one:
  "map position (flowParticles seededHalf) = [1 / 2]
   \<and> map position (flowParticles (updateFlowParticles 1 seededHalf)) = [1]
   \<and> \<not> (\<forall>p \<in> set (flowParticles (updateFlowParticles 1 seededHalf)).
           0 \<le> position p \<and> position p < 1)"
  by (simp add: flowParticles_seededHalf updateFlowParticles_def position_updateParticle)

text \<open>
  C8, as stated, fails: at position 0.95, speed 0.5 and \<open>dt = 0.2\<close> the raw position is
  1.05 and the particle ends at 0, not at 0.05.
\<close>

theorem updateParticle_example_not_modular:
  "position exampleParticle + speed exampleParticle * (1 / 5) = 21 / 20
   \<and> position (updateParticle (1 / 5) exampleParticle) = 0
   \<and> position (updateParticle (1 / 5) exampleParticle) \<noteq> 1 / 20"
  by (simp add: exampleParticle_def position_updateParticle)

text \<open>
  C8, as amended. When \<open>updateFlowParticles\<close> carries a particle's position past 1, the
  position is reset to 0, the origin of the path; speed and line are unchanged.
\<close>

theorem updateParticle_resets_to_origin:
  assumes "position p + speed p * dt > 1"
  shows "position (updateParticle dt p) = 0 \<and> speed (updateParticle dt p) = speed p
         \<and> line (updateParticle dt p) = line p"
  using assms by (simp add: position_updateParticle speed_updateParticle line_updateParticle)

theorem updateParticle_resets_to_origin_witness:
  "position exampleParticle + speed exampleParticle * (1 / 5) > 1
   \<and> position (updateParticle (1 / 5) exampleParticle) = 0"
proof -
  have h: "position exampleParticle + speed exampleParticle * (1 / 5) > 1"
    by (simp add: exampleParticle_def)
  from updateParticle_resets_to_origin [OF h] h show ?thesis by simp
qed

subsection \<open>Drawing\<close>

lemma particleDash_ok:
  assumes "0 \<le> position p" "position p \<le> 1" "2 \<le> length (points (line p))"
  shows "\<exists>d. particleDash p = Inr d"
proof -
  let ?n = "length (points (line p))"
  let ?v = "position p * (real ?n - 1)"
  from assms(3) have n1: "0 \<le> real ?n - 1" by simp
  with assms(1) have "0 \<le> ?v" by simp
  then have lo: "0 \<le> \<lfloor>?v\<rfloor>" by simp
  from mult_right_mono [OF assms(2) n1] have "?v \<le> real ?n - 1" by simp
  then have "\<lfloor>?v\<rfloor> \<le> \<lfloor>real ?n - 1\<rfloor>" by (rule floor_mono)
  also have "\<lfloor>real ?n - 1\<rfloor> = int ?n - 1" by simp
  finally have hi: "\<lfloor>?v\<rfloor> \<le> int ?n - 1" .
  from lo hi assms(3) show ?thesis
    by (auto simp add: particleDash_def Let_def pointAt_def min_def)
qed

lemma drawDashes_ok:
  assumes "\<forall>p \<in> set ps. 0 \<le> position p \<and> position p \<le> 1 \<and> 2 \<le> length (points (line p))"
  shows "\<exists>ds. drawDashes ps = Inr ds \<and> length ds = length ps"
  using assms
proof (induction ps)
  case Nil
  then show ?case by simp
next
  case (Cons p ps)
  then obtain ds where ds: "drawDashes ps = Inr ds" "length ds = length ps" by auto
  from Cons.prems particleDash_ok [of p] obtain d where "particleDash p = Inr d" by auto
  with ds Cons.prems show ?case by simp
qed

text \<open>
  C10. When \<open>drawFlowParticles\<close> (or \<open>drawFieldLines\<close>, which calls it) runs with an empty
  pool and a non-empty list of field lines, the renderer it leaves is the one
  \<open>initFlowParticles\<close> gives for those lines and the same random draws, and the dashes are
  drawn from that seeded pool: one dash per seeded particle, without an exception, when
  \<open>Math.random()\<close> returns values of \<open>[0,1)\<close>.
\<close>

theorem drawFlowParticles_seeds_empty_pool:
  assumes "flowParticles r = []" and "fieldLines \<noteq> []"
    and "\<forall>k. 0 \<le> rnd k \<and> rnd k < 1"
  shows "fst (drawFlowParticles rnd r fieldLines) = initFlowParticles rnd r fieldLines
       \<and> snd (snd (drawFlowParticles rnd r fieldLines)) =
           drawDashes (flowParticles (initFlowParticles rnd r fieldLines))
       \<and> drawFieldLines rnd r fieldLines = drawFlowParticles rnd r fieldLines
       \<and> (\<exists>ds. snd (snd (drawFlowParticles rnd r fieldLines)) = Inr ds
              \<and> length ds = sum_list (map specCount fieldLines))"
proof -
  let ?r1 = "initFlowParticles rnd r fieldLines"
  from assms(1,2) have eq: "drawFlowParticles rnd r fieldLines =
      (?r1, pathLines fieldLines, drawDashes (flowParticles ?r1))"
    by (simp add: drawFlowParticles_def Let_def)
  from assms(3) have rnd: "\<And>k. 0 \<le> rnd k \<and> rnd k < 1" by simp
  have "\<forall>p \<in> set (flowParticles ?r1).
          0 \<le> position p \<and> position p \<le> 1 \<and> 2 \<le> length (points (line p))"
  proof
    fix p assume "p \<in> set (flowParticles ?r1)"
    then have "p \<in> set (seedLines rnd 0 fieldLines)" by (simp add: initFlowParticles_def)
    from seedLines_ranges [OF rnd this]
    show "0 \<le> position p \<and> position p \<le> 1 \<and> 2 \<le> length (points (line p))" by simp
  qed
  from drawDashes_ok [OF this] obtain ds where
    ds: "drawDashes (flowParticles ?r1) = Inr ds" "length ds = length (flowParticles ?r1)"
    by blast
  have "length (flowParticles ?r1) = sum_list (map specCount fieldLines)"
    by (simp add: initFlowParticles_def length_seedLines)
  with ds eq show ?thesis by (simp add: drawFieldLines_def)
qed

theorem drawFlowParticles_seeds_empty_pool_witness:
  "flowParticles (newRenderer 800 600) = [] \<and> [lineOfLength 2] \<noteq> []
   \<and> fst (drawFlowParticles (\<lambda>k. 1 / 2) (newRenderer 800 600) [lineOfLength 2]) = seededHalf
   \<and> (\<exists>ds. snd (snd (drawFlowParticles (\<lambda>k. 1 / 2) (newRenderer 800 600) [lineOfLength 2])) = Inr ds
          \<and> length ds = 1)"
proof -
  have h1: "flowParticles (newRenderer 800 600) = []" by (simp add: newRenderer_def)
  have h2: "[lineOfLength 2] \<noteq> []" by simp
  have h3: "\<forall>k::nat. (0::real) \<le> (\<lambda>k. 1 / 2) k \<and> (\<lambda>k. 1 / 2) k < (1::real)" by simp
  have c: "specCount (lineOfLength 2) = 1" by (simp add: specCount_def lineOfLength_def)
  note t = drawFlowParticles_seeds_empty_pool [OF h1 h2 h3]
  from t have a: "fst (drawFlowParticles (\<lambda>k. 1 / 2) (newRenderer 800 600) [lineOfLength 2]) = seededHalf"
    unfolding seededHalf_def by (rule conjunct1)
  from t obtain ds where
    "snd (snd (drawFlowParticles (\<lambda>k. 1 / 2) (newRenderer 800 600) [lineOfLength 2])) = Inr ds"
    "length ds = sum_list (map specCount [lineOfLength 2])"
    by blast
  then have b: "\<exists>ds. snd (snd (drawFlowParticles (\<lambda>k. 1 / 2) (newRenderer 800 600) [lineOfLength 2])) = Inr ds
          \<and> length ds = 1"
    by (simp add: c)
  from h1 h2 a b show ?thesis by blast
qed

subsection \<open>The colour map\<close>

lemma getScientificColor_below_half:
  assumes "263 / 528 < t" and "t < 1 / 2"
  shows "getScientificColor t = RGB 30 30 60"
proof -
  have r: "\<lfloor>10 + t * 2 * 20 + 1 / 2\<rfloor> = 30"
    using assms by (intro floor_unique) simp_all
  have b: "\<lfloor>60 + (1 - t * 2) * 132 + 1 / 2\<rfloor> = 60"
    using assms by (intro floor_unique) simp_all
  from assms(2) r b show ?thesis
    by (simp add: getScientificColor_def jsRound_def Let_def)
qed

text \<open>
  C9. The colour map sends \<open>t = 0\<close> to \<open>rgb(10,10,192)\<close>, a blue, and \<open>t = 1\<close> to
  \<open>rgb(10,175,20)\<close>, a green. At the midpoint it is not continuous: for every \<open>t\<close> below
  and close enough to 0.5, for instance 0.499, the value is \<open>rgb(30,30,60)\<close>, so this is
  the limit from the left, while the value at 0.5 is \<open>rgb(30,30,30)\<close>. The red and green
  channels meet at 30; the blue channel of the lower branch ends at 60 and that of the upper
  branch starts at 30.
\<close>

theorem getScientificColor_midpoint_jump:
  "getScientificColor 0 = RGB 10 10 192
   \<and> getScientificColor 1 = RGB 10 175 20
   \<and> getScientificColor (1 / 2) = RGB 30 30 30
   \<and> getScientificColor (499 / 1000) = RGB 30 30 60
   \<and> eventually (\<lambda>t. getScientificColor t = RGB 30 30 60) (at_left (1 / 2))"
proof -
  have e: "eventually (\<lambda>t. getScientificColor t = RGB 30 30 60) (at_left (1 / 2))"
    unfolding eventually_at_left_field
    by (rule exI [of _ "263 / 528"]) (simp add: getScientificColor_below_half)
  have v: "getScientificColor 0 = RGB 10 10 192" "getScientificColor 1 = RGB 10 175 20"
    "getScientificColor (1 / 2) = RGB 30 30 30" "getScientificColor (499 / 1000) = RGB 30 30 60"
    by (simp_all add: getScientificColor_def jsRound_def Let_def)
  from e v show ?thesis by blast
qed

subsection \<open>Properties of the rounding\<close>

subsection \<open>Rounding to an integer\<close>

lemma roundEven_of_int: "roundEven (of_int k) = k"
  by (simp add: roundEven_def)

lemma roundEven_lower: "\<lfloor>v\<rfloor> \<le> roundEven v"
  by (simp add: roundEven_def Let_def)

lemma roundEven_upper: "roundEven v \<le> \<lceil>v\<rceil>"
proof (cases "v = of_int \<lfloor>v\<rfloor>")
  case True
  then have "roundEven v = \<lfloor>v\<rfloor>" by (metis roundEven_of_int)
  then show ?thesis by (simp add: floor_le_ceiling)
next
  case False
  then have "\<lceil>v\<rceil> = \<lfloor>v\<rfloor> + 1" by (simp add: ceiling_altdef)
  then show ?thesis by (simp add: roundEven_def Let_def)
qed

lemma roundEven_mono:
  assumes "v \<le> w"
  shows "roundEven v \<le> roundEven w"
proof (cases "\<lfloor>v\<rfloor> = \<lfloor>w\<rfloor>")
  case True
  with assms show ?thesis by (auto simp: roundEven_def Let_def)
next
  case False
  with assms have "\<lfloor>v\<rfloor> < \<lfloor>w\<rfloor>" by (simp add: floor_mono order.strict_iff_order)
  then have "roundEven v \<le> \<lfloor>w\<rfloor>" by (simp add: roundEven_def Let_def)
  also have "\<dots> \<le> roundEven w" by (rule roundEven_lower)
  finally show ?thesis .
qed

lemma roundEven_uminus: "roundEven (- v) = - roundEven v"
proof (cases "v = of_int \<lfloor>v\<rfloor>")
  case True
  then obtain k where "v = of_int k" ..
  then have "roundEven v = k" "roundEven (- v) = - k"
    using roundEven_of_int [of k] roundEven_of_int [of "- k"] by simp_all
  then show ?thesis by simp
next
  case False
  then have c: "\<lceil>v\<rceil> = \<lfloor>v\<rfloor> + 1" by (simp add: ceiling_altdef)
  have f: "\<lfloor>- v\<rfloor> = - \<lfloor>v\<rfloor> - 1" using c by (simp add: ceiling_def)
  show ?thesis
    unfolding roundEven_def Let_def f by auto
qed

subsection \<open>The exponent of the quantum\<close>

lemma searchExp_spec:
  "- 1074 \<le> searchExp k a \<and> searchExp k a \<le> int k - 1074
   \<and> (- 1074 < searchExp k a \<longrightarrow> 2 powi (searchExp k a + 52) \<le> a)
   \<and> (searchExp k a < int k - 1074 \<longrightarrow> a < 2 powi (searchExp k a + 53))"
proof (induction k)
  case 0
  show ?case by simp
next
  case (Suc k)
  show ?case
  proof (cases "2 powi (int k - 1073 + 52) \<le> a")
    case True
    then show ?thesis by simp
  next
    case False
    then have lt: "a < 2 powi (int k - 1073 + 52)" by simp
    have "a < 2 powi (searchExp k a + 53)"
    proof (cases "searchExp k a < int k - 1074")
      case True
      with Suc.IH show ?thesis by simp
    next
      case False
      with Suc.IH have "searchExp k a = int k - 1074" by simp
      then have "searchExp k a + 53 = int k - 1073 + 52" by simp
      with lt show ?thesis by (simp only:)
    qed
    with False Suc.IH show ?thesis by simp
  qed
qed

lemma quantumExp_range: "- 1074 \<le> quantumExp v" "quantumExp v \<le> 971"
  using searchExp_spec [of 2045 "\<bar>v\<bar>"] by (simp_all add: quantumExp_def)

lemma quantumExp_lower: "- 1074 < quantumExp v \<Longrightarrow> 2 powi (quantumExp v + 52) \<le> \<bar>v\<bar>"
  using searchExp_spec [of 2045 "\<bar>v\<bar>"] by (simp add: quantumExp_def)

lemma quantumExp_upper: "quantumExp v < 971 \<Longrightarrow> \<bar>v\<bar> < 2 powi (quantumExp v + 53)"
  using searchExp_spec [of 2045 "\<bar>v\<bar>"] by (simp add: quantumExp_def)

lemma quantumExp_uminus: "quantumExp (- v) = quantumExp v"
  by (simp add: quantumExp_def)

lemma powi_two_mono: "a \<le> b \<Longrightarrow> (2::real) powi a \<le> 2 powi b"
  by (rule power_int_increasing) simp_all

lemma quantumExp_mono:
  assumes "\<bar>v\<bar> \<le> \<bar>w\<bar>"
  shows "quantumExp v \<le> quantumExp w"
proof (rule ccontr)
  assume "\<not> quantumExp v \<le> quantumExp w"
  then have lt: "quantumExp w < quantumExp v" by simp
  with quantumExp_range(1) [of w] have "- 1074 < quantumExp v" by simp
  from quantumExp_lower [OF this] assms have "2 powi (quantumExp v + 52) \<le> \<bar>w\<bar>" by simp
  moreover from lt quantumExp_range(2) [of v] have "quantumExp w < 971" by simp
  from quantumExp_upper [OF this] have "\<bar>w\<bar> < 2 powi (quantumExp w + 53)" .
  moreover from lt have "(2::real) powi (quantumExp w + 53) \<le> 2 powi (quantumExp v + 52)"
    by (intro powi_two_mono) simp
  ultimately show False by simp
qed

lemma quantumExp_eqI:
  assumes "- 1074 \<le> e" "e \<le> 971"
    and "e = - 1074 \<or> 2 powi (e + 52) \<le> \<bar>v\<bar>"
    and "e = 971 \<or> \<bar>v\<bar> < 2 powi (e + 53)"
  shows "quantumExp v = e"
proof (rule ccontr)
  assume ne: "quantumExp v \<noteq> e"
  show False
  proof (cases "quantumExp v < e")
    case True
    with assms(1,2) quantumExp_range(1) [of v] have "- 1074 < e" "quantumExp v < 971" by simp_all
    with assms(3) quantumExp_upper [of v]
    have "2 powi (e + 52) \<le> \<bar>v\<bar>" "\<bar>v\<bar> < 2 powi (quantumExp v + 53)" by simp_all
    moreover from True have "(2::real) powi (quantumExp v + 53) \<le> 2 powi (e + 52)"
      by (intro powi_two_mono) simp
    ultimately show False by simp
  next
    case False
    with ne have gt: "e < quantumExp v" by simp
    with assms(1,2) quantumExp_range(2) [of v] have "e < 971" "- 1074 < quantumExp v" by simp_all
    with assms(4) quantumExp_lower [of v]
    have "\<bar>v\<bar> < 2 powi (e + 53)" "2 powi (quantumExp v + 52) \<le> \<bar>v\<bar>" by simp_all
    moreover from gt have "(2::real) powi (e + 53) \<le> 2 powi (quantumExp v + 52)"
      by (intro powi_two_mono) simp
    ultimately show False by simp
  qed
qed

subsection \<open>Rounding to a double\<close>

lemma powi_two_add: "(2::real) powi (a + b) = 2 powi a * 2 powi b"
  by (rule power_int_add) simp

lemma powi_two_quot: "(2::real) powi (q + c) / 2 powi q = 2 powi c"
  by (simp add: powi_two_add)

lemma powi_two_nat: "(2::real) powi (q + int n) / 2 powi q = of_int (2 ^ n)"
  by (simp add: powi_two_add)

lemma powi_two_52: "(2::real) powi (q + 52) / 2 powi q = of_int (2 ^ 52)"
  using powi_two_nat [of q 52] by simp

lemma powi_two_53: "(2::real) powi (q + 53) / 2 powi q = of_int (2 ^ 53)"
  using powi_two_nat [of q 53] by simp

lemma toDouble_uminus: "toDouble (- v) = - toDouble v"
  by (simp add: toDouble_def quantumExp_uminus roundEven_uminus)

lemma toDouble_zero: "toDouble 0 = 0"
  by (simp add: toDouble_def roundEven_def)

lemma toDouble_integral:
  assumes "v / 2 powi quantumExp v = of_int m"
  shows "toDouble v = v"
proof -
  have "toDouble v = of_int m * 2 powi quantumExp v"
    by (simp add: toDouble_def assms roundEven_of_int)
  also have "\<dots> = v / 2 powi quantumExp v * 2 powi quantumExp v"
    by (simp only: assms)
  also have "\<dots> = v" by simp
  finally show ?thesis .
qed

lemma toDouble_exact:
  assumes "\<bar>k\<bar> < 2 ^ 53" and "- 1074 \<le> e"
  shows "toDouble (of_int k * 2 powi e) = of_int k * 2 powi e"
proof -
  let ?v = "of_int k * 2 powi e :: real"
  let ?q = "quantumExp ?v"
  have abs: "\<bar>?v\<bar> = of_int \<bar>k\<bar> * 2 powi e" by (simp add: abs_mult)
  have qe: "?q \<le> e"
  proof (rule ccontr)
    assume "\<not> ?q \<le> e"
    then have gt: "e < ?q" by simp
    with assms(2) have "- 1074 < ?q" by simp
    from quantumExp_lower [OF this] have "2 powi (?q + 52) \<le> (of_int \<bar>k\<bar> :: real) * 2 powi e"
      by (simp only: abs)
    moreover from assms(1) have "(of_int \<bar>k\<bar> :: real) < of_int (2 ^ 53)"
      by (simp only: of_int_less_iff)
    then have "(of_int \<bar>k\<bar> :: real) * 2 powi e < of_int (2 ^ 53) * 2 powi e"
      by (intro mult_strict_right_mono) simp_all
    moreover have "(of_int (2 ^ 53) :: real) * 2 powi e = 2 powi (e + 53)"
      by (simp add: powi_two_add)
    moreover from gt have "(2::real) powi (e + 53) \<le> 2 powi (?q + 52)"
      by (intro powi_two_mono) simp
    ultimately show False by linarith
  qed
  then obtain n where n: "e = ?q + int n"
    by (metis zle_iff_zadd)
  have "?v / 2 powi ?q = of_int k * (2 powi e / 2 powi ?q)"
    by simp
  also have "(2::real) powi e / 2 powi ?q = of_int (2 ^ n)"
    by (subst n) (rule powi_two_nat)
  also have "of_int k * (of_int (2 ^ n) :: real) = of_int (k * 2 ^ n)" by simp
  finally show ?thesis by (rule toDouble_integral)
qed

lemma toDouble_of_int: "\<bar>k\<bar> < 2 ^ 53 \<Longrightarrow> toDouble (of_int k) = of_int k"
  using toDouble_exact [of k 0] by simp

lemma toDouble_nonneg:
  assumes "0 \<le> v"
  shows "0 \<le> toDouble v"
proof -
  from assms have "0 \<le> v / 2 powi quantumExp v" by simp
  then have "0 \<le> \<lfloor>v / 2 powi quantumExp v\<rfloor>" by simp
  also have "\<dots> \<le> roundEven (v / 2 powi quantumExp v)" by (rule roundEven_lower)
  finally show ?thesis by (simp add: toDouble_def)
qed

lemma toDouble_ge_binade:
  assumes "0 \<le> v" and "- 1074 < quantumExp v"
  shows "2 powi (quantumExp v + 52) \<le> toDouble v"
proof -
  let ?q = "quantumExp v"
  from quantumExp_lower [OF assms(2)] assms(1) have "2 powi (?q + 52) \<le> v" by simp
  then have "2 powi (?q + 52) / 2 powi ?q \<le> v / 2 powi ?q"
    by (intro divide_right_mono) simp_all
  then have "of_int (2 ^ 52) \<le> v / 2 powi ?q" by (simp only: powi_two_52)
  then have "2 ^ 52 \<le> \<lfloor>v / 2 powi ?q\<rfloor>" by (simp only: le_floor_iff)
  also have "\<dots> \<le> roundEven (v / 2 powi ?q)" by (rule roundEven_lower)
  finally have "(of_int (2 ^ 52) :: real) \<le> of_int (roundEven (v / 2 powi ?q))"
    by (simp only: of_int_le_iff)
  then have "of_int (2 ^ 52) * 2 powi ?q \<le> toDouble v"
    unfolding toDouble_def by (intro mult_right_mono) simp_all
  moreover have "(of_int (2 ^ 52) :: real) * 2 powi ?q = 2 powi (?q + 52)"
    by (simp add: powi_two_add)
  ultimately show ?thesis by (simp only:)
qed

lemma toDouble_le_binade:
  assumes "0 \<le> v" and "quantumExp v < 971"
  shows "toDouble v \<le> 2 powi (quantumExp v + 53)"
proof -
  let ?q = "quantumExp v"
  from quantumExp_upper [OF assms(2)] assms(1) have "v \<le> 2 powi (?q + 53)" by simp
  then have "v / 2 powi ?q \<le> 2 powi (?q + 53) / 2 powi ?q"
    by (intro divide_right_mono) simp_all
  then have "v / 2 powi ?q \<le> of_int (2 ^ 53)" by (simp only: powi_two_53)
  then have "\<lceil>v / 2 powi ?q\<rceil> \<le> 2 ^ 53" by (simp only: ceiling_le_iff)
  with roundEven_upper [of "v / 2 powi ?q"] have "roundEven (v / 2 powi ?q) \<le> 2 ^ 53"
    by (rule order_trans)
  then have "(of_int (roundEven (v / 2 powi ?q)) :: real) \<le> of_int (2 ^ 53)"
    by (simp only: of_int_le_iff)
  then have "toDouble v \<le> of_int (2 ^ 53) * 2 powi ?q"
    unfolding toDouble_def by (intro mult_right_mono) simp_all
  moreover have "(of_int (2 ^ 53) :: real) * 2 powi ?q = 2 powi (?q + 53)"
    by (simp add: powi_two_add)
  ultimately show ?thesis by (simp only:)
qed

lemma toDouble_mono_nonneg:
  assumes "0 \<le> v" and "v \<le> w"
  shows "toDouble v \<le> toDouble w"
proof -
  from assms have w: "0 \<le> w" by simp
  from assms have "quantumExp v \<le> quantumExp w" by (intro quantumExp_mono) simp
  then consider "quantumExp v = quantumExp w" | "quantumExp v < quantumExp w"
    by (auto simp: order.strict_iff_order)
  then show ?thesis
  proof cases
    case 1
    from assms(2) have "v / 2 powi quantumExp w \<le> w / 2 powi quantumExp w"
      by (intro divide_right_mono) simp_all
    then have "roundEven (v / 2 powi quantumExp w) \<le> roundEven (w / 2 powi quantumExp w)"
      by (rule roundEven_mono)
    then have "(of_int (roundEven (v / 2 powi quantumExp w)) :: real)
        \<le> of_int (roundEven (w / 2 powi quantumExp w))"
      by (simp only: of_int_le_iff)
    then show ?thesis
      unfolding toDouble_def 1 by (intro mult_right_mono) simp_all
  next
    case 2
    with quantumExp_range(2) [of w] quantumExp_range(1) [of v]
    have "quantumExp v < 971" "- 1074 < quantumExp w" by simp_all
    from toDouble_le_binade [OF assms(1) this(1)] toDouble_ge_binade [OF w this(2)]
    have "toDouble v \<le> 2 powi (quantumExp v + 53)" "2 powi (quantumExp w + 52) \<le> toDouble w" .
    moreover from 2 have "(2::real) powi (quantumExp v + 53) \<le> 2 powi (quantumExp w + 52)"
      by (intro powi_two_mono) simp
    ultimately show ?thesis by simp
  qed
qed

lemma toDouble_mono:
  assumes "v \<le> w"
  shows "toDouble v \<le> toDouble w"
proof (cases "0 \<le> v")
  case True
  then show ?thesis using assms by (rule toDouble_mono_nonneg)
next
  case False
  then have v: "0 \<le> - v" by simp
  show ?thesis
  proof (cases "0 \<le> w")
    case True
    from toDouble_nonneg [OF v] toDouble_nonneg [OF True] show ?thesis
      by (simp add: toDouble_uminus)
  next
    case False
    then have "0 \<le> - w" by simp
    moreover from assms have "- w \<le> - v" by simp
    ultimately have "toDouble (- w) \<le> toDouble (- v)" by (rule toDouble_mono_nonneg)
    then show ?thesis by (simp add: toDouble_uminus)
  qed
qed

lemma toDouble_multiple: "\<exists>m. toDouble v = of_int m * 2 powi (- 1074)"
proof -
  let ?q = "quantumExp v"
  from quantumExp_range(1) [of v] obtain n where n: "?q = - 1074 + int n"
    by (metis zle_iff_zadd)
  have "(2::real) powi ?q = 2 powi (- 1074) * 2 powi (int n)"
    by (subst n) (rule powi_two_add)
  also have "\<dots> = of_int (2 ^ n) * 2 powi (- 1074)"
    by (simp only: power_int_of_nat of_int_power of_int_numeral mult.commute)
  finally have "toDouble v = of_int (roundEven (v / 2 powi ?q) * 2 ^ n) * 2 powi (- 1074)"
    by (simp only: toDouble_def of_int_mult mult.assoc)
  then show ?thesis ..
qed

lemma toDouble_upper:
  assumes "0 \<le> v"
  shows "toDouble v \<le> max (v * (1 + 2 powi (- 52)))
           (of_int \<lceil>v / 2 powi (- 1074)\<rceil> * 2 powi (- 1074))"
proof (cases "quantumExp v = - 1074")
  case True
  have "(of_int (roundEven (v / 2 powi (- 1074))) :: real) \<le> of_int \<lceil>v / 2 powi (- 1074)\<rceil>"
    by (simp only: of_int_le_iff roundEven_upper)
  then have "toDouble v \<le> of_int \<lceil>v / 2 powi (- 1074)\<rceil> * 2 powi (- 1074)"
    unfolding toDouble_def True by (intro mult_right_mono) simp_all
  then show ?thesis by simp
next
  case False
  let ?q = "quantumExp v"
  from False quantumExp_range(1) [of v] have "- 1074 < ?q" by simp
  from quantumExp_lower [OF this] assms have lo: "2 powi (?q + 52) \<le> v" by simp
  have "(of_int (roundEven (v / 2 powi ?q)) :: real) \<le> of_int \<lceil>v / 2 powi ?q\<rceil>"
    by (simp only: of_int_le_iff roundEven_upper)
  also have "\<dots> \<le> v / 2 powi ?q + 1" by linarith
  finally have "toDouble v \<le> (v / 2 powi ?q + 1) * 2 powi ?q"
    unfolding toDouble_def by (intro mult_right_mono) simp_all
  also have "\<dots> = v + 2 powi ?q" by (simp add: algebra_simps)
  also have "(2::real) powi ?q = 2 powi (?q + 52) * 2 powi (- 52)"
    using powi_two_add [of "?q + 52" "- 52"] by simp
  also have "\<dots> \<le> v * 2 powi (- 52)"
    using lo by (intro mult_right_mono) simp_all
  finally have "toDouble v \<le> v * (1 + 2 powi (- 52))" by (simp add: algebra_simps)
  then show ?thesis by simp
qed

lemma toDouble_idem: "toDouble (toDouble v) = toDouble v"
proof -
  have nonneg: "toDouble (toDouble v) = toDouble v" if v: "0 \<le> v" for v
  proof -
    let ?q = "quantumExp v"
    let ?w = "toDouble v"
    let ?q' = "quantumExp ?w"
    let ?R = "roundEven (v / 2 powi ?q)"
    have w: "0 \<le> ?w" using v by (rule toDouble_nonneg)
    have wR: "?w = of_int ?R * 2 powi ?q" by (simp add: toDouble_def)
    show ?thesis
    proof (cases "?q' \<le> ?q")
      case True
      then obtain n where n: "?q = ?q' + int n" by (metis zle_iff_zadd)
      have "?w / 2 powi ?q' = of_int ?R * (2 powi ?q / 2 powi ?q')"
        by (subst wR) simp
      also have "(2::real) powi ?q / 2 powi ?q' = of_int (2 ^ n)"
        by (subst n) (rule powi_two_nat)
      also have "of_int ?R * (of_int (2 ^ n) :: real) = of_int (?R * 2 ^ n)" by simp
      finally show ?thesis by (rule toDouble_integral)
    next
      case False
      then have gt: "?q < ?q'" by simp
      with quantumExp_range(2) [of ?w] quantumExp_range(1) [of v]
      have "?q < 971" "- 1074 < ?q'" by simp_all
      from toDouble_le_binade [OF v this(1)] quantumExp_lower [OF this(2)] w
      have "?w \<le> 2 powi (?q + 53)" "2 powi (?q' + 52) \<le> ?w" by simp_all
      moreover from gt have "(2::real) powi (?q + 53) \<le> 2 powi (?q' + 52)"
        by (intro powi_two_mono) simp
      ultimately have eq: "?w = 2 powi (?q' + 52)" by simp
      have "?w / 2 powi ?q' = 2 powi (?q' + 52) / 2 powi ?q'"
        by (subst (1) eq) (rule refl)
      then have "?w / 2 powi ?q' = of_int (2 ^ 52)"
        by (simp only: powi_two_52)
      then show ?thesis by (rule toDouble_integral)
    qed
  qed
  show ?thesis
  proof (cases "0 \<le> v")
    case True
    then show ?thesis by (rule nonneg)
  next
    case False
    then have "0 \<le> - v" by simp
    from nonneg [OF this] show ?thesis by (simp add: toDouble_uminus)
  qed
qed

lemma isDouble_toDouble: "isDouble (toDouble v)"
  by (simp add: isDouble_def toDouble_idem)

lemma isDouble_multiple: "isDouble v \<Longrightarrow> \<exists>m. v = of_int m * 2 powi (- 1074)"
  using toDouble_multiple [of v] by (simp add: isDouble_def)

text \<open>
  The rounding error: half a unit in the last place, or half the smallest subnormal.
\<close>

lemma roundEven_error: "\<bar>of_int (roundEven v) - v\<bar> \<le> 1 / 2"
proof -
  have "of_int \<lfloor>v\<rfloor> \<le> v" "v < of_int \<lfloor>v\<rfloor> + 1" by linarith+
  then show ?thesis by (auto simp: roundEven_def Let_def abs_le_iff)
qed

lemma toDouble_error: "\<bar>toDouble v - v\<bar> \<le> \<bar>v\<bar> * 2 powi (- 53) + 2 powi (- 1075)"
proof -
  let ?q = "quantumExp v"
  have "toDouble v - v = (of_int (roundEven (v / 2 powi ?q)) - v / 2 powi ?q) * 2 powi ?q"
    by (simp add: toDouble_def algebra_simps)
  then have "\<bar>toDouble v - v\<bar> = \<bar>of_int (roundEven (v / 2 powi ?q)) - v / 2 powi ?q\<bar> * 2 powi ?q"
    by (simp add: abs_mult)
  also have "\<dots> \<le> 1 / 2 * 2 powi ?q"
    using roundEven_error [of "v / 2 powi ?q"] by (intro mult_right_mono) simp_all
  finally have half: "\<bar>toDouble v - v\<bar> \<le> 2 powi ?q / 2" by simp
  show ?thesis
  proof (cases "?q = - 1074")
    case True
    have "(2::real) powi (- 1074) = 2 powi (- 1075) * 2 powi 1"
      using powi_two_add [of "- 1075" 1] by simp
    then have "(2::real) powi (- 1074) / 2 = 2 powi (- 1075)" by simp
    with half True have "\<bar>toDouble v - v\<bar> \<le> 2 powi (- 1075)" by simp
    moreover have "0 \<le> \<bar>v\<bar> * 2 powi (- 53)" by simp
    ultimately show ?thesis by linarith
  next
    case False
    with quantumExp_range(1) [of v] have "- 1074 < ?q" by simp
    from quantumExp_lower [OF this] have lo: "2 powi (?q + 52) \<le> \<bar>v\<bar>" .
    have "(2::real) powi ?q / 2 = 2 powi (?q + 52) * 2 powi (- 53)"
      using powi_two_add [of "?q + 52" "- 53"] powi_two_add [of "?q - 1" 1] by simp
    also have "\<dots> \<le> \<bar>v\<bar> * 2 powi (- 53)"
      using lo by (intro mult_right_mono) simp_all
    finally have "\<bar>toDouble v - v\<bar> \<le> \<bar>v\<bar> * 2 powi (- 53)" using half by simp
    moreover have "(0::real) \<le> 2 powi (- 1075)" by simp
    ultimately show ?thesis by linarith
  qed
qed

subsection \<open>One cell\<close>

lemma marchingIndex_sum:
  "marchingIndex level v00 v10 v01 v11 =
     (if level \<le> v00 then 1 else 0) + (if level \<le> v10 then 2 else 0)
     + (if level \<le> v11 then 4 else 0) + (if level \<le> v01 then 8 else 0)"
  by (simp add: marchingIndex_def)

lemma marchingIndex_less: "marchingIndex level v00 v10 v01 v11 < 16"
  by (simp add: marchingIndex_sum)

lemma marchingIndex_zero:
  "marchingIndex level v00 v10 v01 v11 = 0 \<longleftrightarrow>
     v00 < level \<and> v10 < level \<and> v11 < level \<and> v01 < level"
  by (auto simp add: marchingIndex_sum)

lemma marchingIndex_full:
  "marchingIndex level v00 v10 v01 v11 = 15 \<longleftrightarrow>
     level \<le> v00 \<and> level \<le> v10 \<and> level \<le> v11 \<and> level \<le> v01"
  by (auto simp add: marchingIndex_sum)

lemma length_drawContourSegment:
  "length (drawContourSegment x y s idx level v00 v10 v01 v11) =
     (if idx = 5 \<or> idx = 10 then 2 else if 1 \<le> idx \<and> idx \<le> 14 then 1 else 0)"
proof -
  have "idx = 0 \<or> idx = 1 \<or> idx = 2 \<or> idx = 3 \<or> idx = 4 \<or> idx = 5 \<or> idx = 6 \<or> idx = 7
      \<or> idx = 8 \<or> idx = 9 \<or> idx = 10 \<or> idx = 11 \<or> idx = 12 \<or> idx = 13 \<or> idx = 14
      \<or> 14 < idx"
    by arith
  then show ?thesis
    by (elim disjE) (simp_all add: drawContourSegment_def Let_def)
qed

text \<open>
  C1. For every cell and level the lookup emits exactly the entry of the 16-entry table
  for its index: nothing for 0 and 15 (and for any index above 15), the two fixed segments
  left-top with right-bottom for the saddle 5 and top-right with bottom-left for the saddle
  10, and the one listed segment for each of the other twelve indices. The index is the
  sum of 1, 2, 4 and 8 over the corners \<open>v00\<close>, \<open>v10\<close>, \<open>v11\<close>, \<open>v01\<close> that are at least
  the level, so it is 0 exactly when every corner is below the level and 15 exactly when
  none is; the cell loop passes the index of the cell's own corners, and the path of a
  level is the segments of all cells, row after row.
\<close>

theorem drawContourSegment_case_table:
  "(let top = edgePosition s level v00 v10;
        bottom = edgePosition s level v01 v11;
        left = edgePosition s level v00 v01;
        right = edgePosition s level v10 v11;
        segments = (\<lambda>idx. drawContourSegment x y s idx level v00 v10 v01 v11)
    in segments 0 = []
     \<and> segments 1 = [(x, toDouble (y + left), toDouble (x + top), y)]
     \<and> segments 2 = [(toDouble (x + top), y, toDouble (x + s), toDouble (y + right))]
     \<and> segments 3 = [(x, toDouble (y + left), toDouble (x + s), toDouble (y + right))]
     \<and> segments 4 = [(toDouble (x + s), toDouble (y + right), toDouble (x + bottom), toDouble (y + s))]
     \<and> segments 5 = [(x, toDouble (y + left), toDouble (x + top), y),
                     (toDouble (x + s), toDouble (y + right), toDouble (x + bottom), toDouble (y + s))]
     \<and> segments 6 = [(toDouble (x + top), y, toDouble (x + bottom), toDouble (y + s))]
     \<and> segments 7 = [(x, toDouble (y + left), toDouble (x + bottom), toDouble (y + s))]
     \<and> segments 8 = [(toDouble (x + bottom), toDouble (y + s), x, toDouble (y + left))]
     \<and> segments 9 = [(toDouble (x + bottom), toDouble (y + s), toDouble (x + top), y)]
     \<and> segments 10 = [(toDouble (x + top), y, toDouble (x + s), toDouble (y + right)),
                      (toDouble (x + bottom), toDouble (y + s), x, toDouble (y + left))]
     \<and> segments 11 = [(toDouble (x + bottom), toDouble (y + s), toDouble (x + s), toDouble (y + right))]
     \<and> segments 12 = [(toDouble (x + s), toDouble (y + right), x, toDouble (y + left))]
     \<and> segments 13 = [(toDouble (x + s), toDouble (y + right), toDouble (x + top), y)]
     \<and> segments 14 = [(toDouble (x + top), y, x, toDouble (y + left))]
     \<and> segments (15 + idx) = [])
   \<and> length (drawContourSegment x y s idx level v00 v10 v01 v11) =
        (if idx = 5 \<or> idx = 10 then 2 else if 1 \<le> idx \<and> idx \<le> 14 then 1 else 0)
   \<and> marchingIndex level v00 v10 v01 v11 =
        (if level \<le> v00 then 1 else 0) + (if level \<le> v10 then 2 else 0)
        + (if level \<le> v11 then 4 else 0) + (if level \<le> v01 then 8 else 0)
   \<and> marchingIndex level v00 v10 v01 v11 < 16
   \<and> (marchingIndex level v00 v10 v01 v11 = 0 \<longleftrightarrow>
        v00 < level \<and> v10 < level \<and> v11 < level \<and> v01 < level)
   \<and> (marchingIndex level v00 v10 v01 v11 = 15 \<longleftrightarrow>
        level \<le> v00 \<and> level \<le> v10 \<and> level \<le> v11 \<and> level \<le> v01)
   \<and> cellSegments grid s level j i =
        drawContourSegment (toDouble (real i * s)) (toDouble (real j * s)) s
          (marchingIndex level (grid ! j ! i) (grid ! j ! (i + 1))
             (grid ! (j + 1) ! i) (grid ! (j + 1) ! (i + 1)))
          level (grid ! j ! i) (grid ! j ! (i + 1)) (grid ! (j + 1) ! i) (grid ! (j + 1) ! (i + 1))
   \<and> marchLevel grid s rows cols level =
        concat (map (\<lambda>j. concat (map (\<lambda>i. cellSegments grid s level j i) [0..<cols - 1]))
                  [0..<rows - 1])"
proof -
  have t: "(let top = edgePosition s level v00 v10;
        bottom = edgePosition s level v01 v11;
        left = edgePosition s level v00 v01;
        right = edgePosition s level v10 v11;
        segments = (\<lambda>idx. drawContourSegment x y s idx level v00 v10 v01 v11)
    in segments 0 = []
     \<and> segments 1 = [(x, toDouble (y + left), toDouble (x + top), y)]
     \<and> segments 2 = [(toDouble (x + top), y, toDouble (x + s), toDouble (y + right))]
     \<and> segments 3 = [(x, toDouble (y + left), toDouble (x + s), toDouble (y + right))]
     \<and> segments 4 = [(toDouble (x + s), toDouble (y + right), toDouble (x + bottom), toDouble (y + s))]
     \<and> segments 5 = [(x, toDouble (y + left), toDouble (x + top), y),
                     (toDouble (x + s), toDouble (y + right), toDouble (x + bottom), toDouble (y + s))]
     \<and> segments 6 = [(toDouble (x + top), y, toDouble (x + bottom), toDouble (y + s))]
     \<and> segments 7 = [(x, toDouble (y + left), toDouble (x + bottom), toDouble (y + s))]
     \<and> segments 8 = [(toDouble (x + bottom), toDouble (y + s), x, toDouble (y + left))]
     \<and> segments 9 = [(toDouble (x + bottom), toDouble (y + s), toDouble (x + top), y)]
     \<and> segments 10 = [(toDouble (x + top), y, toDouble (x + s), toDouble (y + right)),
                      (toDouble (x + bottom), toDouble (y + s), x, toDouble (y + left))]
     \<and> segments 11 = [(toDouble (x + bottom), toDouble (y + s), toDouble (x + s), toDouble (y + right))]
     \<and> segments 12 = [(toDouble (x + s), toDouble (y + right), x, toDouble (y + left))]
     \<and> segments 13 = [(toDouble (x + s), toDouble (y + right), toDouble (x + top), y)]
     \<and> segments 14 = [(toDouble (x + top), y, x, toDouble (y + left))]
     \<and> segments (15 + idx) = [])"
    by (simp add: drawContourSegment_def Let_def)
  have d: "cellSegments grid s level j i =
        drawContourSegment (toDouble (real i * s)) (toDouble (real j * s)) s
          (marchingIndex level (grid ! j ! i) (grid ! j ! (i + 1))
             (grid ! (j + 1) ! i) (grid ! (j + 1) ! (i + 1)))
          level (grid ! j ! i) (grid ! j ! (i + 1)) (grid ! (j + 1) ! i) (grid ! (j + 1) ! (i + 1))"
    by (simp add: cellSegments_def Let_def)
  have e: "marchLevel grid s rows cols level =
        concat (map (\<lambda>j. concat (map (\<lambda>i. cellSegments grid s level j i) [0..<cols - 1]))
                  [0..<rows - 1])"
    by (simp add: marchLevel_def)
  from t length_drawContourSegment marchingIndex_sum marchingIndex_less marchingIndex_zero
    marchingIndex_full d e
  show ?thesis by (intro conjI)
qed

text \<open>The segments of one cell, by the comparisons of its four corners with the level.\<close>

lemma drawContourSegment_cell:
  "drawContourSegment x y s (marchingIndex level v00 v10 v01 v11) level v00 v10 v01 v11 =
    (let top = toDouble (x + edgePosition s level v00 v10);
         bottom = toDouble (x + edgePosition s level v01 v11);
         left = toDouble (y + edgePosition s level v00 v01);
         right = toDouble (y + edgePosition s level v10 v11);
         xs = toDouble (x + s);
         ys = toDouble (y + s)
     in if level \<le> v00 then
          (if level \<le> v10 then
             (if level \<le> v11 then
                (if level \<le> v01 then [] else [(x, left, bottom, ys)])
              else
                (if level \<le> v01 then [(bottom, ys, xs, right)]
                 else [(x, left, xs, right)]))
           else
             (if level \<le> v11 then
                (if level \<le> v01 then [(xs, right, top, y)]
                 else [(x, left, top, y), (xs, right, bottom, ys)])
              else
                (if level \<le> v01 then [(bottom, ys, top, y)]
                 else [(x, left, top, y)])))
        else
          (if level \<le> v10 then
             (if level \<le> v11 then
                (if level \<le> v01 then [(top, y, x, left)]
                 else [(top, y, bottom, ys)])
              else
                (if level \<le> v01 then [(top, y, xs, right), (bottom, ys, x, left)]
                 else [(top, y, xs, right)]))
           else
             (if level \<le> v11 then
                (if level \<le> v01 then [(xs, right, x, left)]
                 else [(xs, right, bottom, ys)])
              else
                (if level \<le> v01 then [(bottom, ys, x, left)] else []))))"
  by (simp add: marchingIndex_sum drawContourSegment_def Let_def)

lemma toDouble_one: "toDouble 1 = 1"
  using toDouble_of_int [of 1] by simp

lemma orOne_nonzero: "orOne d \<noteq> 0"
  by (simp add: orOne_def)

text \<open>On an edge that the level crosses the rounded fraction is between 0 and 1.\<close>

lemma crossing_fraction:
  assumes "(level \<le> vA) \<noteq> (level \<le> vB)"
  shows "0 \<le> toDouble (toDouble (level - vA) / orOne (toDouble (vB - vA)))
       \<and> toDouble (toDouble (level - vA) / orOne (toDouble (vB - vA))) \<le> 1"
proof -
  define N where "N = toDouble (level - vA)"
  define M where "M = toDouble (vB - vA)"
  have q: "0 \<le> N / orOne M \<and> N / orOne M \<le> 1"
  proof (cases "level \<le> vA")
    case True
    with assms have "vB < level" by simp
    with True have "vB - vA \<le> level - vA" "level - vA \<le> 0" by simp_all
    then have "M \<le> N" "N \<le> 0"
      unfolding N_def M_def using toDouble_mono [of "level - vA" 0]
      by (simp_all add: toDouble_mono toDouble_zero)
    then show ?thesis by (auto simp: orOne_def divide_simps)
  next
    case False
    with assms have "level \<le> vB" by simp
    with False have "level - vA \<le> vB - vA" "0 \<le> level - vA" by simp_all
    then have "N \<le> M" "0 \<le> N"
      unfolding N_def M_def using toDouble_mono [of 0 "level - vA"]
      by (simp_all add: toDouble_mono toDouble_zero)
    then show ?thesis by (auto simp: orOne_def divide_simps)
  qed
  then have "toDouble 0 \<le> toDouble (N / orOne M)" "toDouble (N / orOne M) \<le> toDouble 1"
    by (simp_all add: toDouble_mono)
  then show ?thesis by (simp add: N_def M_def toDouble_zero toDouble_one)
qed

lemma edgePosition_between:
  assumes "0 \<le> s" and "(level \<le> vA) \<noteq> (level \<le> vB)"
  shows "0 \<le> edgePosition s level vA vB \<and> edgePosition s level vA vB \<le> toDouble s"
proof -
  define t where "t = toDouble (toDouble (level - vA) / orOne (toDouble (vB - vA)))"
  from crossing_fraction [OF assms(2)] have t: "0 \<le> t" "t \<le> 1" by (simp_all add: t_def)
  have S: "0 \<le> toDouble s" using assms(1) by (rule toDouble_nonneg)
  from S t(1) have lo: "0 \<le> toDouble s * t" by (rule mult_nonneg_nonneg)
  from mult_left_mono [OF t(2) S] have hi: "toDouble s * t \<le> toDouble s" by simp
  have e: "edgePosition s level vA vB = toDouble (toDouble (toDouble s * t))"
    by (simp add: edgePosition_def lerp_def t_def)
  from lo have "0 \<le> toDouble (toDouble (toDouble s * t))"
    by (intro toDouble_nonneg)
  moreover from hi have "toDouble (toDouble (toDouble s * t)) \<le> toDouble (toDouble (toDouble s))"
    by (intro toDouble_mono)
  ultimately show ?thesis by (simp add: e toDouble_idem)
qed

lemma cell_segment_in_cell:
  assumes "0 \<le> s" and "isDouble s" and "isDouble x" and "isDouble y"
    and "(x1, y1, x2, y2) \<in> set (drawContourSegment x y s (marchingIndex level v00 v10 v01 v11)
           level v00 v10 v01 v11)"
  shows "x \<le> x1 \<and> x1 \<le> toDouble (x + s) \<and> y \<le> y1 \<and> y1 \<le> toDouble (y + s)
       \<and> x \<le> x2 \<and> x2 \<le> toDouble (x + s) \<and> y \<le> y2 \<and> y2 \<le> toDouble (y + s)"
proof -
  have inner: "c \<le> toDouble (c + edgePosition s level vA vB)
        \<and> toDouble (c + edgePosition s level vA vB) \<le> toDouble (c + s)"
    if "isDouble c" and "(level \<le> vA) \<noteq> (level \<le> vB)" for c vA vB
  proof -
    from edgePosition_between [OF assms(1) that(2)] assms(2)
    have p: "0 \<le> edgePosition s level vA vB" "edgePosition s level vA vB \<le> s"
      by (simp_all add: isDouble_def)
    from p(1) have "toDouble c \<le> toDouble (c + edgePosition s level vA vB)"
      by (intro toDouble_mono) simp
    moreover from p(2) have "toDouble (c + edgePosition s level vA vB) \<le> toDouble (c + s)"
      by (intro toDouble_mono) simp
    ultimately show ?thesis using that(1) by (simp add: isDouble_def)
  qed
  have far: "c \<le> toDouble (c + s)" if "isDouble c" for c
  proof -
    from assms(1) have "toDouble c \<le> toDouble (c + s)" by (intro toDouble_mono) simp
    with that show ?thesis by (simp add: isDouble_def)
  qed
  from assms(5) inner [OF assms(3), of v00 v10] inner [OF assms(3), of v01 v11]
    inner [OF assms(4), of v00 v01] inner [OF assms(4), of v10 v11]
    far [OF assms(3)] far [OF assms(4)]
  show ?thesis
    unfolding drawContourSegment_cell Let_def
    by (auto split: if_splits)
qed


subsection \<open>The levels\<close>

lemma length_levelValues: "length (levelValues lo hi n) = n - 1"
  by (simp add: levelValues_def)

lemma nth_levelValues:
  "k < n - 1 \<Longrightarrow> levelValues lo hi n ! k =
     toDouble (lo + toDouble (toDouble (toDouble (hi - lo) * real (k + 1)) / real n))"
  by (simp add: levelValues_def Let_def add.commute)

lemma levelValues_eq:
  "levelValues lo hi n =
     map (\<lambda>i. toDouble (lo + toDouble (toDouble (toDouble (hi - lo) * real i) / real n))) [1..<n]"
  by (simp add: levelValues_def Let_def)

text \<open>The rounded offset \<open>(range * i) / n\<close> is not negative and grows with \<open>i\<close>.\<close>

lemma offset_nonneg:
  assumes "lo \<le> hi"
  shows "0 \<le> toDouble (toDouble (toDouble (hi - lo) * real i) / real n)"
proof -
  from assms have "0 \<le> toDouble (hi - lo)" by (intro toDouble_nonneg) simp
  then have "0 \<le> toDouble (toDouble (hi - lo) * real i)" by (intro toDouble_nonneg) simp
  then show ?thesis by (intro toDouble_nonneg) simp
qed

lemma offset_mono:
  assumes "lo \<le> hi" and "i \<le> i'"
  shows "toDouble (toDouble (toDouble (hi - lo) * real i) / real n)
       \<le> toDouble (toDouble (toDouble (hi - lo) * real i') / real n)"
proof -
  from assms(1) have r: "0 \<le> toDouble (hi - lo)" by (intro toDouble_nonneg) simp
  from assms(2) have "real i \<le> real i'" by simp
  with r have "toDouble (hi - lo) * real i \<le> toDouble (hi - lo) * real i'"
    by (rule mult_left_mono [rotated])
  then have "toDouble (toDouble (hi - lo) * real i) \<le> toDouble (toDouble (hi - lo) * real i')"
    by (rule toDouble_mono)
  then have "toDouble (toDouble (hi - lo) * real i) / real n
      \<le> toDouble (toDouble (hi - lo) * real i') / real n"
    by (rule divide_right_mono) simp
  then show ?thesis by (rule toDouble_mono)
qed

lemma cube_bound:
  fixes e i n :: real
  assumes "0 \<le> e" "e \<le> 1 / 4" "4 * e * (n - 1) \<le> 1" "0 \<le> i" "i \<le> n - 1"
  shows "(1 + e) * (1 + e) * (1 + e) * i \<le> n"
proof -
  have "e * e \<le> e * (1 / 4)" using assms(1,2) by (intro mult_left_mono) simp_all
  then have ee: "e * e \<le> e / 4" by simp
  have "e * e * e \<le> (e / 4) * (1 / 4)"
    using ee assms(1,2) by (intro mult_mono) simp_all
  then have eee: "e * e * e \<le> e / 16" by simp
  have "(1 + e) * (1 + e) * (1 + e) = 1 + 3 * e + 3 * (e * e) + e * e * e"
    by (simp add: algebra_simps)
  also have "\<dots> \<le> 1 + 4 * e" using ee eee assms(1) by linarith
  finally have c: "(1 + e) * (1 + e) * (1 + e) \<le> 1 + 4 * e" .
  have "(1 + e) * (1 + e) * (1 + e) * i \<le> (1 + 4 * e) * i"
    using c assms(4) by (rule mult_right_mono)
  also have "\<dots> \<le> (1 + 4 * e) * (n - 1)"
    using assms(1,5) by (intro mult_left_mono) simp_all
  also have "\<dots> = (n - 1) + 4 * e * (n - 1)" by (simp add: algebra_simps)
  also have "\<dots> \<le> n" using assms(3) by linarith
  finally show ?thesis .
qed

lemma toDouble_upper_multiple:
  assumes "0 \<le> v" and "v = of_int m * 2 powi (- 1074)"
  shows "toDouble v \<le> v * (1 + 2 powi (- 52))"
proof -
  have "v / 2 powi (- 1074) = of_int m" by (simp add: assms(2))
  then have "of_int \<lceil>v / 2 powi (- 1074)\<rceil> * 2 powi (- 1074) = v"
    by (simp only: ceiling_of_int assms(2))
  moreover have "v \<le> v * (1 + 2 powi (- 52))"
    using assms(1) by (simp add: algebra_simps)
  ultimately show ?thesis using toDouble_upper [OF assms(1)] by (simp only: max_def split: if_splits)
qed

lemma offset_bounds:
  assumes "isDouble lo" and "isDouble hi" and "lo \<le> hi"
    and "i < n" and "n \<le> 2 ^ 50"
  shows "toDouble (hi - lo) \<le> (hi - lo) * (1 + 2 powi (- 52))
       \<and> toDouble (toDouble (hi - lo) * real i) / real n \<le> hi - lo
       \<and> toDouble (toDouble (toDouble (hi - lo) * real i) / real n) \<le> hi - lo"
proof -
  define eps :: real where "eps = 2 powi (- 52)"
  define eta :: real where "eta = 2 powi (- 1074)"
  define D where "D = hi - lo"
  define r where "r = toDouble D"
  define t where "t = toDouble (r * real i)"
  define w where "w = t / real n"
  have eps: "0 \<le> eps" "eps \<le> 1 / 4" "eps * 2 ^ 52 = 1"
    by (simp_all add: eps_def)
  have eta: "0 < eta" by (simp add: eta_def)
  from assms(4) have n: "0 < real n" by simp
  from assms(3) have D: "0 \<le> D" by (simp add: D_def)
  from isDouble_multiple [OF assms(1)] isDouble_multiple [OF assms(2)]
  obtain a b where "lo = of_int a * eta" "hi = of_int b * eta"
    unfolding eta_def by blast
  then have Dm: "D = of_int (b - a) * eta" by (simp add: D_def algebra_simps)
  from toDouble_upper_multiple [OF D Dm [unfolded eta_def]]
  have r1: "r \<le> D * (1 + eps)" by (simp add: r_def eps_def)
  have r0: "0 \<le> r" unfolding r_def using D by (rule toDouble_nonneg)
  from toDouble_multiple [of D] obtain c where rm: "r = of_int c * eta"
    unfolding r_def eta_def by blast
  have ri0: "0 \<le> r * real i" using r0 by simp
  have rim: "r * real i = of_int (c * int i) * eta" by (simp add: rm)
  from toDouble_upper_multiple [OF ri0 rim [unfolded eta_def]]
  have t1: "t \<le> r * real i * (1 + eps)" by (simp add: t_def eps_def)
  have t0: "0 \<le> t" unfolding t_def using ri0 by (rule toDouble_nonneg)
  have w0: "0 \<le> w" using t0 by (simp add: w_def)
  have "r * real i * (1 + eps) \<le> D * (1 + eps) * real i * (1 + eps)"
    using r1 eps(1) by (intro mult_right_mono) simp_all
  with t1 have t2: "t \<le> D * ((1 + eps) * (1 + eps) * real i)" by (simp add: algebra_simps)
  have cube: "(1 + eps) * (1 + eps) * (1 + eps) * real i \<le> real n"
  proof (rule cube_bound [OF eps(1,2)])
    from assms(5) have "real n \<le> 2 ^ 50" by (metis of_nat_le_numeral_power_cancel_iff)
    then have "4 * eps * (real n - 1) \<le> 4 * eps * 2 ^ 50"
      using eps(1) by (intro mult_left_mono) simp_all
    also have "\<dots> = eps * 2 ^ 52" by simp
    finally show "4 * eps * (real n - 1) \<le> 1" by (simp only: eps(3))
    show "0 \<le> real i" by simp
    from assms(4) show "real i \<le> real n - 1" by (simp add: of_nat_diff less_eq_Suc_le [symmetric] Suc_leI le_diff_conv2)
  qed
  have square: "(1 + eps) * (1 + eps) * real i \<le> real n"
  proof -
    have "(1 + eps) * (1 + eps) * real i * 1 \<le> (1 + eps) * (1 + eps) * real i * (1 + eps)"
      using eps(1) by (intro mult_left_mono) simp_all
    with cube show ?thesis by (simp add: algebra_simps)
  qed
  have wD: "w \<le> D"
  proof -
    have "t \<le> D * real n" using t2 square D
      by (meson mult_left_mono order_trans)
    then show ?thesis using n by (simp add: w_def divide_simps mult.commute)
  qed
  have w1: "w * (1 + eps) \<le> D"
  proof -
    have "t * (1 + eps) \<le> D * ((1 + eps) * (1 + eps) * real i) * (1 + eps)"
      using t2 eps(1) by (intro mult_right_mono) simp_all
    also have "\<dots> = D * ((1 + eps) * (1 + eps) * (1 + eps) * real i)"
      by (simp add: algebra_simps)
    also have "\<dots> \<le> D * real n" using cube D by (rule mult_left_mono)
    finally have "t * (1 + eps) \<le> D * real n" .
    then show ?thesis using n by (simp add: w_def divide_simps mult.commute)
  qed
  have w2: "of_int \<lceil>w / eta\<rceil> * eta \<le> D"
  proof -
    from wD eta have "w / eta \<le> D / eta" by (simp add: divide_right_mono)
    also have "D / eta = of_int (b - a)" using eta by (simp add: Dm)
    finally have "\<lceil>w / eta\<rceil> \<le> b - a" by (simp only: ceiling_le_iff)
    then have "(of_int \<lceil>w / eta\<rceil> :: real) \<le> of_int (b - a)" by (simp only: of_int_le_iff)
    then have "of_int \<lceil>w / eta\<rceil> * eta \<le> of_int (b - a) * eta"
      using eta by (intro mult_right_mono) simp_all
    then show ?thesis by (simp only: Dm)
  qed
  from toDouble_upper [OF w0] have "toDouble w \<le> max (w * (1 + eps)) (of_int \<lceil>w / eta\<rceil> * eta)"
    by (simp only: eps_def eta_def)
  with w1 w2 have "toDouble w \<le> D" by simp
  with r1 wD show ?thesis by (simp only: w_def t_def r_def D_def eps_def)
qed

lemma level_inside:
  assumes "isDouble lo" and "isDouble hi" and "lo \<le> hi" and "i < n" and "n \<le> 2 ^ 50"
  shows "lo \<le> toDouble (lo + toDouble (toDouble (toDouble (hi - lo) * real i) / real n))
       \<and> toDouble (lo + toDouble (toDouble (toDouble (hi - lo) * real i) / real n)) \<le> hi"
proof -
  let ?q = "toDouble (toDouble (toDouble (hi - lo) * real i) / real n)"
  from offset_nonneg [OF assms(3)] have "lo \<le> lo + ?q" by simp
  then have "toDouble lo \<le> toDouble (lo + ?q)" by (rule toDouble_mono)
  moreover from offset_bounds [OF assms] have "lo + ?q \<le> hi" by simp
  then have "toDouble (lo + ?q) \<le> toDouble hi" by (rule toDouble_mono)
  ultimately show ?thesis using assms(1,2) by (simp add: isDouble_def)
qed

lemma level_mono:
  assumes "lo \<le> hi" and "i \<le> i'"
  shows "toDouble (lo + toDouble (toDouble (toDouble (hi - lo) * real i) / real n))
       \<le> toDouble (lo + toDouble (toDouble (toDouble (hi - lo) * real i') / real n))"
  using offset_mono [OF assms] by (intro toDouble_mono) simp

lemma level_error:
  assumes "isDouble lo" and "isDouble hi" and "lo \<le> hi" and "i < n" and "n \<le> 2 ^ 50"
  shows "\<bar>toDouble (lo + toDouble (toDouble (toDouble (hi - lo) * real i) / real n))
          - (lo + (hi - lo) * real i / real n)\<bar>
         \<le> 2 powi (- 49) * max \<bar>lo\<bar> \<bar>hi\<bar> + 2 powi (- 1073)"
proof -
  define u :: real where "u = 2 powi (- 53)"
  define eta :: real where "eta = 2 powi (- 1075)"
  define D where "D = hi - lo"
  define r where "r = toDouble D"
  define t where "t = toDouble (r * real i)"
  define w where "w = t / real n"
  define q where "q = toDouble w"
  define L where "L = toDouble (lo + q)"
  define M where "M = max \<bar>lo\<bar> \<bar>hi\<bar>"
  define rho where "rho = real i / real n"
  have u: "0 \<le> u" "16 * u = 2 powi (- 49)" and eta: "0 \<le> eta" "4 * eta = 2 powi (- 1073)"
    by (simp_all add: u_def eta_def)
  from assms(4) have n: "0 < real n" "1 \<le> real n" by simp_all
  from assms(4) have rho: "0 \<le> rho" "rho \<le> 1" by (simp_all add: rho_def)
  from assms(3) have D: "0 \<le> D" by (simp add: D_def)
  from offset_bounds [OF assms]
  have r1: "r \<le> D * (1 + 2 powi (- 52))" and wD: "w \<le> D" and qD: "q \<le> D"
    by (simp_all add: r_def D_def w_def t_def q_def)
  have r0: "0 \<le> r" unfolding r_def using D by (rule toDouble_nonneg)
  have t0: "0 \<le> t" unfolding t_def using r0 by (intro toDouble_nonneg) simp
  have w0: "0 \<le> w" using t0 by (simp add: w_def)
  have q0: "0 \<le> q" unfolding q_def using w0 by (rule toDouble_nonneg)
  have "D * (1 + 2 powi (- 52)) \<le> D * 2" using D by (intro mult_left_mono) simp_all
  with r1 have r2: "r \<le> 2 * D" by simp
  have a: "\<bar>r - D\<bar> \<le> u * D + eta"
    using toDouble_error [of D] D by (simp add: r_def u_def eta_def mult.commute)
  have b: "\<bar>t - r * real i\<bar> \<le> u * (r * real i) + eta"
    using toDouble_error [of "r * real i"] r0 by (simp add: t_def u_def eta_def mult.commute abs_mult)
  have c: "\<bar>q - w\<bar> \<le> u * w + eta"
    using toDouble_error [of w] w0 by (simp add: q_def u_def eta_def mult.commute)
  have d: "\<bar>L - (lo + q)\<bar> \<le> u * \<bar>lo + q\<bar> + eta"
    using toDouble_error [of "lo + q"] by (simp add: L_def u_def eta_def mult.commute)
  have uw: "u * w \<le> u * D" using wD u(1) by (rule mult_left_mono)
  have "u * r \<le> u * (2 * D)" using r2 u(1) by (rule mult_left_mono)
  then have ur: "u * r \<le> u * D * 2" by simp
  have b': "\<bar>w - r * rho\<bar> \<le> u * r + eta"
  proof -
    have "w - r * rho = (t - r * real i) / real n" by (simp add: w_def rho_def diff_divide_distrib)
    then have "\<bar>w - r * rho\<bar> = \<bar>t - r * real i\<bar> / real n" by (simp add: abs_divide)
    also have "\<dots> \<le> (u * (r * real i) + eta) / real n"
      using b by (intro divide_right_mono) simp_all
    also have "\<dots> = u * r * rho + eta / real n"
      by (simp add: rho_def add_divide_distrib)
    also have "u * r * rho \<le> u * r * 1"
      using rho(2) u(1) r0 by (intro mult_left_mono) simp_all
    also have "eta / real n \<le> eta"
    proof -
      from eta(1) n(2) have "eta * 1 \<le> eta * real n" by (rule mult_left_mono [rotated])
      with n(1) show ?thesis by (simp add: divide_le_eq)
    qed
    finally show ?thesis by simp
  qed
  have a': "\<bar>r * rho - D * rho\<bar> \<le> u * D + eta"
  proof -
    have "\<bar>r * rho - D * rho\<bar> = \<bar>r - D\<bar> * rho"
      using rho(1) by (simp add: abs_mult flip: left_diff_distrib)
    also have "\<dots> \<le> \<bar>r - D\<bar> * 1" using rho(2) by (intro mult_left_mono) simp_all
    finally show ?thesis using a by simp
  qed
  have off: "\<bar>q - D * rho\<bar> \<le> 4 * (u * D) + 3 * eta"
    using c b' a' uw ur by linarith
  have lq: "\<bar>lo + q\<bar> \<le> M"
    using q0 qD by (simp add: M_def D_def)
  have DM: "D \<le> 2 * M" by (simp add: M_def D_def)
  have uM: "u * \<bar>lo + q\<bar> \<le> u * M" using lq u(1) by (rule mult_left_mono)
  have "u * D \<le> u * (2 * M)" using DM u(1) by (rule mult_left_mono)
  then have uD: "u * D \<le> 2 * (u * M)" by simp
  have M0: "0 \<le> u * M" using u(1) by (simp add: M_def)
  have "\<bar>L - (lo + D * rho)\<bar> \<le> 9 * (u * M) + 4 * eta"
    using d off uM uD by linarith
  also have "\<dots> \<le> 16 * (u * M) + 4 * eta" using M0 by linarith
  also have "\<dots> = 2 powi (- 49) * M + 2 powi (- 1073)"
    by (simp only: mult.assoc [symmetric] u(2) eta(2))
  finally show ?thesis
    by (simp add: L_def q_def w_def t_def r_def D_def M_def rho_def)
qed

subsection \<open>The scan for the minimum and the maximum\<close>

lemma lowerOf_Some: "lowerOf (Some m) V = Some (min m V)"
  by (simp add: lowerOf_def min_def)

lemma upperOf_Some: "upperOf (Some m) V = Some (max m V)"
  by (simp add: upperOf_def max_def)

lemma Min_insert_min: "finite S \<Longrightarrow> Min (insert (min m x) S) = Min (insert m (insert x S))"
  for m :: real
  by (cases "S = {}") (simp_all add: min.assoc)

lemma Max_insert_max: "finite S \<Longrightarrow> Max (insert (max m x) S) = Max (insert m (insert x S))"
  for m :: real
  by (cases "S = {}") (simp_all add: max.assoc)

lemma foldl_lowerOf_Some: "foldl lowerOf (Some m) xs = Some (Min (insert m (set xs)))"
  by (induction xs arbitrary: m) (simp_all add: lowerOf_Some Min_insert_min)

lemma foldl_upperOf_Some: "foldl upperOf (Some m) xs = Some (Max (insert m (set xs)))"
  by (induction xs arbitrary: m) (simp_all add: upperOf_Some Max_insert_max)

lemma foldl_lowerOf: "foldl lowerOf None xs = (if xs = [] then None else Some (Min (set xs)))"
  by (cases xs) (simp_all add: lowerOf_def foldl_lowerOf_Some)

lemma foldl_upperOf: "foldl upperOf None xs = (if xs = [] then None else Some (Max (set xs)))"
  by (cases xs) (simp_all add: upperOf_def foldl_upperOf_Some)

subsection \<open>The grid\<close>

lemma nth_potentialGrid:
  "j < rows \<Longrightarrow> i < cols \<Longrightarrow>
     potentialGrid potentialAt resolution rows cols ! j ! i =
       clampSample (potentialAt (toDouble (real i * resolution)) (toDouble (real j * resolution)))"
  by (simp add: potentialGrid_def)


lemma toDouble_numeral: "numeral w < (2::int) ^ 53 \<Longrightarrow> toDouble (numeral w) = numeral w"
  using toDouble_of_int [of "numeral w"] by simp

lemma toDouble_neg_numeral:
  "numeral w < (2::int) ^ 53 \<Longrightarrow> toDouble (- numeral w) = - numeral w"
  by (simp add: toDouble_uminus toDouble_numeral)

lemma isDouble_zero: "isDouble 0"
  by (simp add: isDouble_def toDouble_zero)

lemma isDouble_numeral: "numeral w < (2::int) ^ 53 \<Longrightarrow> isDouble (numeral w)"
  by (simp add: isDouble_def toDouble_numeral)

lemma isDouble_neg_numeral: "numeral w < (2::int) ^ 53 \<Longrightarrow> isDouble (- numeral w)"
  by (simp add: isDouble_def toDouble_neg_numeral)

lemma isDouble_clampSample:
  assumes "\<forall>v. V = Num v \<longrightarrow> isDouble v"
  shows "isDouble (clampSample V)"
proof -
  have lo: "isDouble (- 1000000)" and hi: "isDouble 1000000"
    by (simp_all add: isDouble_neg_numeral isDouble_numeral)
  show ?thesis
  proof (cases V)
    case (Num v)
    with assms have "isDouble v" by simp
    with lo hi show ?thesis by (simp add: Num clampSample_def max_def min_def)
  next
    case NotFinite
    with lo hi isDouble_zero show ?thesis by (simp add: clampSample_def max_def min_def)
  qed
qed

lemma isDouble_gridSamples:
  assumes "\<forall>x y v. potentialAt x y = Num v \<longrightarrow> isDouble v"
    and "v \<in> set (gridSamples r potentialAt resolution)"
  shows "isDouble v"
proof -
  from assms(2) obtain x y where "v = clampSample (potentialAt x y)"
    by (auto simp: gridSamples_def potentialGrid_def)
  moreover from assms(1) have "\<forall>v. potentialAt x y = Num v \<longrightarrow> isDouble v" by simp
  ultimately show ?thesis by (simp add: isDouble_clampSample)
qed

subsection \<open>The whole contour pass\<close>

lemma gridSamples_resolution:
  assumes "gridSamples r potentialAt resolution \<noteq> []"
  shows "resolution \<noteq> 0"
proof
  assume "resolution = 0"
  then have "gridSamples r potentialAt resolution = []"
    by (simp add: gridSamples_def potentialGrid_def rowCount_def toDouble_zero)
  with assms show False by simp
qed

lemma drawPotentialContours_sampled:
  assumes "gridSamples r potentialAt resolution \<noteq> []"
  shows "drawPotentialContours r potentialAt resolution =
    (let cols = colCount r resolution;
         rows = rowCount r resolution;
         grid = potentialGrid potentialAt resolution rows cols;
         minV = Min (set (gridSamples r potentialAt resolution));
         maxV = Max (set (gridSamples r potentialAt resolution))
     in if maxV = minV then Some []
        else Some (map (\<lambda>level. (Level level, marchLevel grid resolution rows cols level))
                     (levelValues minV maxV (contourLevels r))))"
proof -
  from gridSamples_resolution [OF assms] have "resolution \<noteq> 0" .
  moreover from assms
  have "scanMin (potentialGrid potentialAt resolution (rowCount r resolution) (colCount r resolution))
      = Some (Min (set (gridSamples r potentialAt resolution)))"
    and "scanMax (potentialGrid potentialAt resolution (rowCount r resolution) (colCount r resolution))
      = Some (Max (set (gridSamples r potentialAt resolution)))"
    by (simp_all add: scanMin_def scanMax_def gridSamples_def foldl_lowerOf foldl_upperOf)
  ultimately show ?thesis
    by (simp add: drawPotentialContours_def Let_def)
qed

text \<open>
  C3. When the grid has samples and their minimum equals their maximum,
  \<open>drawPotentialContours\<close> (and \<open>drawPotentialField\<close>) returns at once: no level and no
  segment, whatever \<open>contourLevels\<close> is.
\<close>

theorem drawPotentialContours_flat:
  assumes "gridSamples r potentialAt resolution \<noteq> []"
    and "Min (set (gridSamples r potentialAt resolution))
         = Max (set (gridSamples r potentialAt resolution))"
  shows "drawPotentialContours r potentialAt resolution = Some []
       \<and> drawPotentialField r potentialAt resolution = Some []"
  using assms(2)
  by (simp add: drawPotentialField_def drawPotentialContours_sampled [OF assms(1)] Let_def)

text \<open>
  C4, as amended. When the minimum of the samples is below their maximum and
  \<open>contourLevels = n\<close> is at least 2 (and at most \<open>2 ^ 50\<close>), the method returns and draws
  exactly \<open>n - 1\<close> levels, in order the doubles computed for
  \<open>minV + (range * i) / n\<close> with \<open>range = maxV - minV\<close> and \<open>i = 1 \<dots> n - 1\<close>, each of the
  four operations rounded. Every level lies in the closed interval from \<open>minV\<close> to \<open>maxV\<close>,
  no level is below the one before it, and level \<open>i\<close> is within
  \<open>2 powi (- 49) * max \<bar>minV\<bar> \<bar>maxV\<bar> + 2 powi (- 1073)\<close> of the evenly spaced value
  \<open>minV + (maxV - minV) * i / n\<close>. The samples are doubles, as every number that
  \<open>potentialAt\<close> returns is.
\<close>

theorem drawPotentialContours_levels:
  fixes r potentialAt resolution
  defines "minV \<equiv> Min (set (gridSamples r potentialAt resolution))"
    and "maxV \<equiv> Max (set (gridSamples r potentialAt resolution))"
    and "n \<equiv> contourLevels r"
  assumes "gridSamples r potentialAt resolution \<noteq> []"
    and "minV < maxV"
    and "2 \<le> n" and "n \<le> 2 ^ 50"
    and "\<forall>x y v. potentialAt x y = Num v \<longrightarrow> isDouble v"
  shows "\<exists>out. drawPotentialContours r potentialAt resolution = Some out
     \<and> map fst out =
         map (\<lambda>i. Level (toDouble (minV + toDouble (toDouble (toDouble (maxV - minV) * real i)
                                                    / real n))))
           [1..<n]
     \<and> length out = n - 1
     \<and> (\<forall>k < n - 1. \<exists>l. fst (out ! k) = Level l \<and> minV \<le> l \<and> l \<le> maxV)
     \<and> (\<forall>k. k + 1 < n - 1 \<longrightarrow>
           (\<exists>l l'. fst (out ! k) = Level l \<and> fst (out ! (k + 1)) = Level l' \<and> l \<le> l'))
     \<and> (\<forall>k < n - 1. \<exists>l. fst (out ! k) = Level l
           \<and> \<bar>l - (minV + (maxV - minV) * real (k + 1) / real n)\<bar>
               \<le> 2 powi (- 49) * max \<bar>minV\<bar> \<bar>maxV\<bar> + 2 powi (- 1073))"
proof -
  define grid where
    "grid = potentialGrid potentialAt resolution (rowCount r resolution) (colCount r resolution)"
  define out where
    "out = map (\<lambda>level. (Level level,
                 marchLevel grid resolution (rowCount r resolution) (colCount r resolution) level))
             (levelValues minV maxV n)"
  define lev where
    "lev = (\<lambda>i. toDouble (minV + toDouble (toDouble (toDouble (maxV - minV) * real i) / real n)))"
  from assms(5) have eq: "drawPotentialContours r potentialAt resolution = Some out"
    by (simp add: drawPotentialContours_sampled [OF assms(4)] Let_def out_def grid_def
        minV_def maxV_def n_def)
  have "map fst out = map Level (levelValues minV maxV n)"
    by (simp add: out_def comp_def)
  then have a: "map fst out = map (\<lambda>i. Level (lev i)) [1..<n]"
    by (simp add: levelValues_eq comp_def lev_def)
  have len: "length out = n - 1"
    by (simp add: out_def length_levelValues)
  have nth: "fst (out ! k) = Level (lev (k + 1))" if "k < n - 1" for k
    using that by (simp add: out_def length_levelValues nth_levelValues lev_def)
  have fin: "finite (set (gridSamples r potentialAt resolution))"
    and ne: "set (gridSamples r potentialAt resolution) \<noteq> {}"
    using assms(4) by simp_all
  have "minV \<in> set (gridSamples r potentialAt resolution)"
    unfolding minV_def using fin ne by (rule Min_in)
  then have dlo: "isDouble minV" by (rule isDouble_gridSamples [OF assms(8)])
  have "maxV \<in> set (gridSamples r potentialAt resolution)"
    unfolding maxV_def using fin ne by (rule Max_in)
  then have dhi: "isDouble maxV" by (rule isDouble_gridSamples [OF assms(8)])
  from assms(5) have le: "minV \<le> maxV" by simp
  have b: "\<forall>k < n - 1. \<exists>l. fst (out ! k) = Level l \<and> minV \<le> l \<and> l \<le> maxV"
  proof (intro allI impI)
    fix k assume k: "k < n - 1"
    then have "k + 1 < n" by simp
    from level_inside [OF dlo dhi le this assms(7)] nth [OF k]
    show "\<exists>l. fst (out ! k) = Level l \<and> minV \<le> l \<and> l \<le> maxV"
      by (simp add: lev_def)
  qed
  have c: "\<forall>k. k + 1 < n - 1 \<longrightarrow>
           (\<exists>l l'. fst (out ! k) = Level l \<and> fst (out ! (k + 1)) = Level l' \<and> l \<le> l')"
  proof (intro allI impI)
    fix k assume k: "k + 1 < n - 1"
    then have k0: "k < n - 1" by simp
    have "lev (k + 1) \<le> lev (k + 1 + 1)"
      unfolding lev_def by (rule level_mono [OF le]) simp
    with nth [OF k0] nth [OF k]
    show "\<exists>l l'. fst (out ! k) = Level l \<and> fst (out ! (k + 1)) = Level l' \<and> l \<le> l'"
      by simp
  qed
  have d: "\<forall>k < n - 1. \<exists>l. fst (out ! k) = Level l
           \<and> \<bar>l - (minV + (maxV - minV) * real (k + 1) / real n)\<bar>
               \<le> 2 powi (- 49) * max \<bar>minV\<bar> \<bar>maxV\<bar> + 2 powi (- 1073)"
  proof (intro allI impI)
    fix k assume k: "k < n - 1"
    then have "k + 1 < n" by simp
    from level_error [OF dlo dhi le this assms(7)]
    have "\<bar>lev (k + 1) - (minV + (maxV - minV) * real (k + 1) / real n)\<bar>
               \<le> 2 powi (- 49) * max \<bar>minV\<bar> \<bar>maxV\<bar> + 2 powi (- 1073)"
      by (simp only: lev_def)
    with nth [OF k]
    show "\<exists>l. fst (out ! k) = Level l
           \<and> \<bar>l - (minV + (maxV - minV) * real (k + 1) / real n)\<bar>
               \<le> 2 powi (- 49) * max \<bar>minV\<bar> \<bar>maxV\<bar> + 2 powi (- 1073)"
      by (intro exI conjI)
  qed
  from eq a [unfolded lev_def] len b c d show ?thesis by (intro exI conjI)
qed

lemma gridSamples_nth:
  assumes "j < rowCount r resolution" and "i < colCount r resolution"
  shows "potentialGrid potentialAt resolution (rowCount r resolution) (colCount r resolution) ! j ! i
         \<in> set (gridSamples r potentialAt resolution)"
proof -
  let ?grid = "potentialGrid potentialAt resolution (rowCount r resolution) (colCount r resolution)"
  from assms(1) have "j < length ?grid" by (simp add: potentialGrid_def)
  then have "?grid ! j \<in> set ?grid" by (rule nth_mem)
  moreover from assms have "i < length (?grid ! j)" by (simp add: potentialGrid_def)
  then have "?grid ! j ! i \<in> set (?grid ! j)" by (rule nth_mem)
  ultimately show ?thesis unfolding gridSamples_def set_concat by blast
qed


text \<open>
  C2. The denominator \<open>vB - vA || 1\<close> is never 0, so every interpolation position is the
  rounded quotient \<open>(level - vA) / (vB - vA)\<close>, or \<open>level - vA\<close> when the two corners are
  equal, scaled by the cell size. Every end point of a segment drawn for a cell lies
  inside the cell, between \<open>x\<close> and \<open>x + size\<close> and between \<open>y\<close> and \<open>y + size\<close> as the
  source computes them. The cell size is not negative and a double, as every number is.
\<close>

theorem edgePosition_total:
  assumes "0 \<le> s" and "isDouble s"
    and "(x1, y1, x2, y2) \<in> set (cellSegments grid s level j i)"
  shows "orOne (toDouble (vB - vA)) \<noteq> 0
       \<and> edgePosition s level vA vB =
           toDouble (0 + toDouble (toDouble (s - 0)
             * toDouble (toDouble (level - vA)
                 / (if toDouble (vB - vA) = 0 then 1 else toDouble (vB - vA)))))
       \<and> toDouble (real i * s) \<le> x1 \<and> x1 \<le> toDouble (toDouble (real i * s) + s)
       \<and> toDouble (real j * s) \<le> y1 \<and> y1 \<le> toDouble (toDouble (real j * s) + s)
       \<and> toDouble (real i * s) \<le> x2 \<and> x2 \<le> toDouble (toDouble (real i * s) + s)
       \<and> toDouble (real j * s) \<le> y2 \<and> y2 \<le> toDouble (toDouble (real j * s) + s)"
proof -
  have a: "orOne (toDouble (vB - vA)) \<noteq> 0" by (rule orOne_nonzero)
  have b: "edgePosition s level vA vB =
           toDouble (0 + toDouble (toDouble (s - 0)
             * toDouble (toDouble (level - vA)
                 / (if toDouble (vB - vA) = 0 then 1 else toDouble (vB - vA)))))"
    by (simp add: edgePosition_def lerp_def orOne_def)
  from assms(3) have "(x1, y1, x2, y2) \<in> set (drawContourSegment (toDouble (real i * s))
      (toDouble (real j * s)) s
      (marchingIndex level (grid ! j ! i) (grid ! j ! (i + 1)) (grid ! (j + 1) ! i)
         (grid ! (j + 1) ! (i + 1)))
      level (grid ! j ! i) (grid ! j ! (i + 1)) (grid ! (j + 1) ! i) (grid ! (j + 1) ! (i + 1)))"
    by (simp add: cellSegments_def Let_def)
  from cell_segment_in_cell [OF assms(1,2) isDouble_toDouble isDouble_toDouble this] a b
  show ?thesis by blast
qed

subsection \<open>Concrete grids\<close>

lemma toDouble_minus_one: "toDouble (- 1) = - 1"
  using toDouble_uminus [of 1] by (simp add: toDouble_one)

lemma toDouble_quarter: "toDouble (1 / 4) = 1 / 4"
  using toDouble_exact [of 1 "- 2"] by simp

lemma toDouble_three_quarters: "toDouble (3 / 4) = 3 / 4"
  using toDouble_exact [of 3 "- 2"] by simp

lemmas toDouble_values = toDouble_zero toDouble_one toDouble_minus_one toDouble_numeral
  toDouble_neg_numeral toDouble_quarter toDouble_three_quarters

lemma counts_24_16: "colCount (newRenderer 24 16) 8 = 3" "rowCount (newRenderer 24 16) 8 = 2"
  by (simp_all add: colCount_def rowCount_def newRenderer_def toDouble_values)

lemma upt_3: "[0..<3] = [0, 1, 2]" "[0..<2] = [0, 1]"
  by (simp_all add: upt_rec)

lemma peakGrid:
  "potentialGrid peakField 8 2 3 = [[1, 0, 12], [0, 0, 0]]"
  by (simp add: potentialGrid_def upt_3 peakField_def clampSample_def toDouble_values)

lemma flatGrid:
  "potentialGrid flatField 8 2 3 = [[5, 5, 5], [5, 5, 5]]"
  by (simp add: potentialGrid_def upt_3 flatField_def clampSample_def)

lemma gridSamples_peakField: "gridSamples (newRenderer 24 16) peakField 8 = [1, 0, 12, 0, 0, 0]"
  by (simp add: gridSamples_def counts_24_16 peakGrid)

lemma gridSamples_flatField: "gridSamples (newRenderer 24 16) flatField 8 = [5, 5, 5, 5, 5, 5]"
  by (simp add: gridSamples_def counts_24_16 flatGrid)








lemma cellSegments_crossing:
  "cellSegments [[1, 0, 16], [0, 0, 0]] 8 4 0 1 = [(10, 0, 16, 6)]"
  by (simp add: cellSegments_def Let_def marchingIndex_def
      drawContourSegment_def edgePosition_def lerp_def orOne_def toDouble_values)

lemma edgePosition_equal_corners: "edgePosition 8 2 12 12 = - 80"
  by (simp add: edgePosition_def lerp_def orOne_def toDouble_values)

theorem edgePosition_total_witness:
  "(0::real) \<le> 8 \<and> isDouble 8
   \<and> (10, 0, 16, 6) \<in> set (cellSegments [[1, 0, 16], [0, 0, 0]] 8 4 0 1)
   \<and> orOne (toDouble (12 - 12)) \<noteq> 0
   \<and> edgePosition 8 2 12 12 = - 80
   \<and> (8::real) \<le> 10 \<and> (10::real) \<le> 16 \<and> (0::real) \<le> 6 \<and> (6::real) \<le> 8"
proof -
  have h1: "(0::real) \<le> 8" by simp
  have h2: "isDouble 8" by (simp add: isDouble_numeral)
  have h3: "(10, 0, 16, 6) \<in> set (cellSegments [[1, 0, 16], [0, 0, 0]] 8 4 0 1)"
    unfolding cellSegments_crossing by simp
  from edgePosition_total [OF h1 h2 h3, of 12 12] h1 h2 h3 edgePosition_equal_corners
  show ?thesis by (simp add: toDouble_values)
qed

theorem drawPotentialContours_flat_witness:
  "gridSamples (newRenderer 24 16) flatField 8 \<noteq> []
   \<and> Min (set (gridSamples (newRenderer 24 16) flatField 8))
       = Max (set (gridSamples (newRenderer 24 16) flatField 8))
   \<and> drawPotentialContours (newRenderer 24 16) flatField 8 = Some []"
proof -
  have h1: "gridSamples (newRenderer 24 16) flatField 8 \<noteq> []"
    by (simp add: gridSamples_flatField)
  have h2: "Min (set (gridSamples (newRenderer 24 16) flatField 8))
       = Max (set (gridSamples (newRenderer 24 16) flatField 8))"
    by (simp add: gridSamples_flatField)
  from drawPotentialContours_flat [OF h1 h2] h1 h2 show ?thesis by blast
qed

lemma isDouble_peakField: "\<forall>x y v. peakField x y = Num v \<longrightarrow> isDouble v"
  by (simp add: peakField_def isDouble_def toDouble_values)

theorem drawPotentialContours_levels_witness:
  "gridSamples (newRenderer 24 16) peakField 8 \<noteq> []
   \<and> Min (set (gridSamples (newRenderer 24 16) peakField 8)) = 0
   \<and> Max (set (gridSamples (newRenderer 24 16) peakField 8)) = 12
   \<and> contourLevels (newRenderer 24 16) = 12
   \<and> (\<exists>out. drawPotentialContours (newRenderer 24 16) peakField 8 = Some out
         \<and> map fst out = [Level 1, Level 2, Level 3, Level 4, Level 5, Level 6, Level 7,
                           Level 8, Level 9, Level 10, Level 11]
         \<and> length out = 11)"
proof -
  have h1: "gridSamples (newRenderer 24 16) peakField 8 \<noteq> []"
    by (simp add: gridSamples_peakField)
  have lo: "Min (set (gridSamples (newRenderer 24 16) peakField 8)) = 0"
    and hi: "Max (set (gridSamples (newRenderer 24 16) peakField 8)) = 12"
    by (simp_all add: gridSamples_peakField)
  have n: "contourLevels (newRenderer 24 16) = 12" by (simp add: newRenderer_def)
  have h2: "Min (set (gridSamples (newRenderer 24 16) peakField 8))
      < Max (set (gridSamples (newRenderer 24 16) peakField 8))"
    by (simp add: lo hi)
  have h3: "2 \<le> contourLevels (newRenderer 24 16)" by (simp add: n)
  have h4: "contourLevels (newRenderer 24 16) \<le> 2 ^ 50" by (simp add: n)
  from drawPotentialContours_levels [OF h1 h2 h3 h4 isDouble_peakField] obtain out where
    "drawPotentialContours (newRenderer 24 16) peakField 8 = Some out"
    "map fst out = map (\<lambda>i. Level (toDouble (0 + toDouble (toDouble (toDouble (12 - 0) * real i)
        / real 12)))) [1..<12]"
    "length out = 12 - 1"
    unfolding lo hi n by blast
  then have "drawPotentialContours (newRenderer 24 16) peakField 8 = Some out
         \<and> map fst out = [Level 1, Level 2, Level 3, Level 4, Level 5, Level 6, Level 7,
                           Level 8, Level 9, Level 10, Level 11]
         \<and> length out = 11"
    by (simp add: upt_rec toDouble_values)
  then have ex: "\<exists>out. drawPotentialContours (newRenderer 24 16) peakField 8 = Some out
         \<and> map fst out = [Level 1, Level 2, Level 3, Level 4, Level 5, Level 6, Level 7,
                           Level 8, Level 9, Level 10, Level 11]
         \<and> length out = 11"
    by (rule exI)
  from h1 lo hi n ex show ?thesis by (intro conjI)
qed

subsection \<open>Adjacent doubles\<close>

lemma roundEven_down:
  assumes "of_int f \<le> v" and "v \<le> of_int f + 1 / 2" and "even f"
  shows "roundEven v = f"
proof -
  from assms(1,2) have "\<lfloor>v\<rfloor> = f" by (intro floor_unique) simp_all
  with assms(2,3) show ?thesis by (simp add: roundEven_def Let_def)
qed

lemma roundEven_up:
  assumes "of_int f + 1 / 2 < v" and "v \<le> of_int f + 1"
  shows "roundEven v = f + 1"
proof (cases "v = of_int f + 1")
  case True
  then have "v = of_int (f + 1)" by simp
  then show ?thesis by (simp only: roundEven_of_int)
next
  case False
  with assms have "\<lfloor>v\<rfloor> = f" by (intro floor_unique) simp_all
  with assms(1) show ?thesis by (simp add: roundEven_def Let_def)
qed

lemma quantumExp_near_one:
  assumes "0 \<le> z" and "z < 1"
  shows "quantumExp (1 + z) = - 52"
  using assms by (intro quantumExp_eqI) simp_all

lemma near_one_scaled: "(1 + z) / 2 powi (- 52) = of_int (2 ^ 52) + z * 2 ^ 52"
  for z :: real
  by (simp add: power_int_minus field_simps)

lemma toDouble_near_one_down:
  assumes "0 \<le> z" and "z \<le> 2 powi (- 53)"
  shows "toDouble (1 + z) = 1"
proof -
  from assms(2) have z: "z * 2 ^ 52 \<le> 1 / 2" by (simp add: power_int_minus field_simps)
  then have "z < 1" using assms(1) by (simp add: field_simps)
  then have q: "quantumExp (1 + z) = - 52" using assms(1) by (intro quantumExp_near_one)
  have "roundEven ((1 + z) / 2 powi (- 52)) = 2 ^ 52"
    unfolding near_one_scaled using assms(1) z by (intro roundEven_down) simp_all
  then show ?thesis by (simp add: toDouble_def q)
qed

lemma toDouble_near_one_up:
  assumes "2 powi (- 53) < z" and "z \<le> 2 powi (- 52)"
  shows "toDouble (1 + z) = 1 + 2 powi (- 52)"
proof -
  from assms(1) have lo: "1 / 2 < z * 2 ^ 52" by (simp add: power_int_minus field_simps)
  from assms(2) have hi: "z * 2 ^ 52 \<le> 1" by (simp add: power_int_minus field_simps)
  from assms have "0 \<le> z" "z < 1" by (simp_all add: power_int_minus field_simps)
  then have q: "quantumExp (1 + z) = - 52" by (intro quantumExp_near_one)
  have "roundEven ((1 + z) / 2 powi (- 52)) = 2 ^ 52 + 1"
    unfolding near_one_scaled using lo hi by (intro roundEven_up) simp_all
  then show ?thesis by (simp add: toDouble_def q power_int_minus field_simps)
qed

lemma toDouble_ulp: "toDouble (2 powi (- 52) * real i) = 2 powi (- 52) * real i" if "i < 2 ^ 53"
proof -
  from that have "\<bar>int i\<bar> < 2 ^ 53" by (simp add: of_nat_less_numeral_power_cancel_iff)
  from toDouble_exact [OF this, of "- 52"] show ?thesis by (simp add: mult.commute)
qed

text \<open>The levels between the adjacent doubles 1 and \<open>1 + 2 powi (- 52)\<close>.\<close>

lemma level_adjacent_low:
  assumes "i \<le> 6"
  shows "toDouble (1 + toDouble (toDouble (toDouble (1 + 2 powi (- 52) - 1) * real i) / 12)) = 1"
proof -
  have r: "toDouble (1 + 2 powi (- 52) - 1) = 2 powi (- 52)"
    using toDouble_exact [of 1 "- 52"] by simp
  from assms have t: "toDouble (2 powi (- 52) * real i) = 2 powi (- 52) * real i"
    by (intro toDouble_ulp) simp
  let ?w = "2 powi (- 52) * real i / 12"
  from assms have "real i \<le> 6" by simp
  then have "?w \<le> 2 powi (- 53)" by (simp add: power_int_minus field_simps)
  then have "toDouble ?w \<le> toDouble (2 powi (- 53))" by (rule toDouble_mono)
  also have "toDouble (2 powi (- 53)) = 2 powi (- 53)"
    using toDouble_exact [of 1 "- 53"] by simp
  finally have hi: "toDouble ?w \<le> 2 powi (- 53)" .
  have lo: "0 \<le> toDouble ?w" by (intro toDouble_nonneg) simp
  from toDouble_near_one_down [OF lo hi] show ?thesis by (simp only: r t)
qed

lemma level_adjacent_high:
  assumes "7 \<le> i" and "i \<le> 12"
  shows "toDouble (1 + toDouble (toDouble (toDouble (1 + 2 powi (- 52) - 1) * real i) / 12))
         = 1 + 2 powi (- 52)"
proof -
  have r: "toDouble (1 + 2 powi (- 52) - 1) = 2 powi (- 52)"
    using toDouble_exact [of 1 "- 52"] by simp
  from assms have t: "toDouble (2 powi (- 52) * real i) = 2 powi (- 52) * real i"
    by (intro toDouble_ulp) simp
  let ?w = "2 powi (- 52) * real i / 12"
  from assms have i: "7 \<le> real i" "real i \<le> 12" by simp_all
  from i(2) have "?w \<le> 2 powi (- 52)" by (simp add: power_int_minus field_simps)
  then have "toDouble ?w \<le> toDouble (2 powi (- 52))" by (rule toDouble_mono)
  also have "toDouble (2 powi (- 52)) = 2 powi (- 52)"
    using toDouble_exact [of 1 "- 52"] by simp
  finally have hi: "toDouble ?w \<le> 2 powi (- 52)" .
  from i(1) have "9 * 2 powi (- 56) \<le> ?w" by (simp add: power_int_minus field_simps)
  then have "toDouble (9 * 2 powi (- 56)) \<le> toDouble ?w" by (rule toDouble_mono)
  moreover have "toDouble (9 * 2 powi (- 56)) = 9 * 2 powi (- 56)"
    using toDouble_exact [of 9 "- 56"] by simp
  moreover have "(2::real) powi (- 53) < 9 * 2 powi (- 56)"
    by (simp add: power_int_minus field_simps)
  ultimately have lo: "2 powi (- 53) < toDouble ?w" by simp
  from toDouble_near_one_up [OF lo hi] show ?thesis by (simp only: r t)
qed

lemma levelValues_adjacent:
  "levelValues 1 (1 + 2 powi (- 52)) 12 =
     [1, 1, 1, 1, 1, 1, 1 + 2 powi (- 52), 1 + 2 powi (- 52), 1 + 2 powi (- 52),
      1 + 2 powi (- 52), 1 + 2 powi (- 52)]"
proof -
  have up: "[1..<12] = [1, 2, 3, 4, 5, 6, 7, 8, 9, 10, 11 :: nat]" by (simp add: upt_rec)
  have low: "toDouble (1 + toDouble (toDouble (toDouble (1 + 2 powi (- 52) - 1) * real i) / real 12)) = 1"
    if "i \<le> 6" for i using level_adjacent_low [OF that] by simp
  have high: "toDouble (1 + toDouble (toDouble (toDouble (1 + 2 powi (- 52) - 1) * real i) / real 12))
      = 1 + 2 powi (- 52)"
    if "7 \<le> i" "i \<le> 12" for i using level_adjacent_high [OF that] by simp
  show ?thesis
    unfolding levelValues_def Let_def up list.map
    by (simp only: low [of 1] low [of 2] low [of 3] low [of 4] low [of 5] low [of 6]
        high [of 7] high [of 8] high [of 9] high [of 10] high [of 11])
qed

lemma counts_16_8: "colCount (newRenderer 16 8) 8 = 2" "rowCount (newRenderer 16 8) 8 = 1"
  by (simp_all add: colCount_def rowCount_def newRenderer_def toDouble_values)

lemma adjacentGrid: "potentialGrid adjacentField 8 1 2 = [[1, 1 + 2 powi (- 52)]]"
  by (simp add: potentialGrid_def upt_3 adjacentField_def clampSample_def toDouble_values
      power_int_minus)

lemma gridSamples_adjacentField:
  "gridSamples (newRenderer 16 8) adjacentField 8 = [1, 1 + 2 powi (- 52)]"
  unfolding gridSamples_def counts_16_8 adjacentGrid by simp

lemma scan_adjacent:
  "scanMin [[1, 1 + 2 powi (- 52)]] = Some 1"
  "scanMax [[1, 1 + 2 powi (- 52)]] = Some (1 + 2 powi (- 52))"
  by (simp_all add: scanMin_def scanMax_def lowerOf_def upperOf_def)

lemma marchLevel_one_row: "marchLevel grid resolution 1 cols level = []"
  by (simp add: marchLevel_def)

lemma contours_adjacent:
  "drawPotentialContours (newRenderer 16 8) adjacentField 8 =
     Some (map (\<lambda>level. (Level level, [])) (levelValues 1 (1 + 2 powi (- 52)) 12))"
proof -
  have n: "contourLevels (newRenderer 16 8) = 12" "\<not> (height (newRenderer 16 8) > 0 \<and> (8::real) = 0)"
    by (simp_all add: newRenderer_def)
  have ne: "(1::real) + 2 powi (- 52) \<noteq> 1" by simp
  show ?thesis
    unfolding drawPotentialContours_def Let_def counts_16_8 adjacentGrid scan_adjacent
      marchLevel_one_row n
    using ne by simp
qed

text \<open>
  C4, as stated, fails. A grid whose two samples are the adjacent doubles 1 and
  \<open>1 + 2 powi (- 52)\<close> is not flat, and with the 12 levels of the constructor the eleven
  levels drawn are 1 six times and \<open>1 + 2 powi (- 52)\<close> five times: none is strictly
  between the minimum and the maximum, and the steps are 0 but for one.
\<close>

theorem contours_levels_collapse:
  "gridSamples (newRenderer 16 8) adjacentField 8 = [1, 1 + 2 powi (- 52)]
   \<and> contourLevels (newRenderer 16 8) = 12
   \<and> map_option (map fst) (drawPotentialContours (newRenderer 16 8) adjacentField 8) =
       Some [Level 1, Level 1, Level 1, Level 1, Level 1, Level 1,
             Level (1 + 2 powi (- 52)), Level (1 + 2 powi (- 52)), Level (1 + 2 powi (- 52)),
             Level (1 + 2 powi (- 52)), Level (1 + 2 powi (- 52))]"
proof -
  have "map_option (map fst) (drawPotentialContours (newRenderer 16 8) adjacentField 8) =
      Some (map Level (levelValues 1 (1 + 2 powi (- 52)) 12))"
    by (simp only: contours_adjacent option.map list.map_comp comp_def fst_conv)
  then have "map_option (map fst) (drawPotentialContours (newRenderer 16 8) adjacentField 8) =
       Some [Level 1, Level 1, Level 1, Level 1, Level 1, Level 1,
             Level (1 + 2 powi (- 52)), Level (1 + 2 powi (- 52)), Level (1 + 2 powi (- 52)),
             Level (1 + 2 powi (- 52)), Level (1 + 2 powi (- 52))]"
    by (simp only: levelValues_adjacent list.map)
  moreover have "contourLevels (newRenderer 16 8) = 12" by (simp add: newRenderer_def)
  ultimately show ?thesis using gridSamples_adjacentField by (intro conjI)
qed

end
